theory Spec2Isabelle
  imports Main "HOL-Library.Sublist"
begin

section \<open>Python strings and the character classes of the patterns\<close>

text \<open>
  A Python \<open>str\<close> is modelled as a \<open>string\<close>: one \<open>char\<close> per code point, for the code
  points 0 to 255. On that range \<open>\d\<close> matches exactly the ten ASCII digits, and both \<open>\s\<close>
  and \<open>str.strip()\<close> use the same twelve whitespace characters (TAB, LF, VT, FF, CR,
  0x1C to 0x1F, SPACE, 0x85 and 0xA0).
\<close>

definition is_digit :: "char \<Rightarrow> bool" where
  "is_digit c = (c \<in> set ''0123456789'')"

definition is_space :: "char \<Rightarrow> bool" where
  "is_space c = (c \<in> set [CHR 0x09, CHR 0x0A, CHR 0x0B, CHR 0x0C, CHR 0x0D, CHR 0x1C,
                             CHR 0x1D, CHR 0x1E, CHR 0x1F, CHR 0x20, CHR 0x85, CHR 0xA0])"

text \<open>\<open>s.strip()\<close>: leading and trailing whitespace removed.\<close>

definition strip :: "string \<Rightarrow> string" where
  "strip s = rev (dropWhile is_space (rev (dropWhile is_space s)))"

text \<open>\<open>sub in s\<close> on strings: \<open>sub\<close> occurs in \<open>s\<close> as a contiguous substring.\<close>

fun py_in :: "string \<Rightarrow> string \<Rightarrow> bool" where
  "py_in sub [] = (sub = [])"
| "py_in sub (c # s) = (prefix sub (c # s) \<or> py_in sub s)"

section \<open>The regular expressions of the scripts and a backtracking matcher\<close>

text \<open>
  The four patterns of the scripts are sequences of items of three kinds: one character of
  a class (a literal character is the class of that character), a greedy repetition
  \<open>c+\<close> or \<open>c*\<close> of a class (at least \<open>n\<close> characters, \<open>n\<close> being 1 or 0), and such a
  repetition inside a capturing group, \<open>(c+)\<close>.
\<close>

datatype rx_item =
    Chr "char \<Rightarrow> bool"
  | Rep nat "char \<Rightarrow> bool"
  | Cap nat "char \<Rightarrow> bool"

definition lit :: "string \<Rightarrow> rx_item list" where
  "lit l = map (\<lambda>c. Chr (\<lambda>x. x = c)) l"

text \<open>
  \<open>rx_rep k n p s\<close> is the greedy repetition as the backtracking engine of \<open>re\<close> runs it:
  it takes one more character of the class first and, only when the rest of the pattern
  (the continuation \<open>k\<close>) then fails, stops here if the minimum \<open>n\<close> has been reached.
  It returns the characters the repetition took and what the continuation returned.
\<close>

fun rx_rep :: "(string \<Rightarrow> 'a option) \<Rightarrow> nat \<Rightarrow> (char \<Rightarrow> bool) \<Rightarrow> string \<Rightarrow> (string \<times> 'a) option" where
  "rx_rep k n p [] = (if n = 0 then map_option (Pair []) (k []) else None)"
| "rx_rep k n p (c # s) =
     (case (if p c then rx_rep k (n - 1) p s else None) of
        Some (x, y) \<Rightarrow> Some (c # x, y)
      | None \<Rightarrow> (if n = 0 then map_option (Pair []) (k (c # s)) else None))"

text \<open>
  \<open>rx_match r s\<close> matches the pattern at the start of \<open>s\<close> (as \<open>Pattern.match\<close> does) and
  returns the matched text, the captured groups and the rest of \<open>s\<close>.
\<close>

fun rx_match :: "rx_item list \<Rightarrow> string \<Rightarrow> (string \<times> string list \<times> string) option" where
  "rx_match [] s = Some ([], [], s)"
| "rx_match (Chr p # r) s =
     (case s of
        [] \<Rightarrow> None
      | c # t \<Rightarrow>
          (if p c
           then (case rx_match r t of None \<Rightarrow> None | Some (m, g, rest) \<Rightarrow> Some (c # m, g, rest))
           else None))"
| "rx_match (Rep n p # r) s =
     (case rx_rep (\<lambda>t. rx_match r t) n p s of
        None \<Rightarrow> None
      | Some (x, m, g, rest) \<Rightarrow> Some (x @ m, g, rest))"
| "rx_match (Cap n p # r) s =
     (case rx_rep (\<lambda>t. rx_match r t) n p s of
        None \<Rightarrow> None
      | Some (x, m, g, rest) \<Rightarrow> Some (x @ m, x # g, rest))"

text \<open>
  \<open>rx_find r s\<close> is the leftmost match: the start positions are tried from left to right,
  the empty suffix included. It returns the text before the match, the matched text, the
  groups and the text after the match.
\<close>

fun rx_find :: "rx_item list \<Rightarrow> string \<Rightarrow> (string \<times> string \<times> string list \<times> string) option" where
  "rx_find r [] = (case rx_match r [] of None \<Rightarrow> None | Some (m, g, rest) \<Rightarrow> Some ([], m, g, rest))"
| "rx_find r (c # s) =
     (case rx_match r (c # s) of
        Some (m, g, rest) \<Rightarrow> Some ([], m, g, rest)
      | None \<Rightarrow> (case rx_find r s of None \<Rightarrow> None
                 | Some (pre, m, g, rest) \<Rightarrow> Some (c # pre, m, g, rest)))"

text \<open>
  \<open>re.search\<close> returns \<open>None\<close> or a match object, modelled as the matched text (group 0)
  with the list of captured groups. \<open>m.group(n)\<close> raises \<open>IndexError\<close> when the pattern
  has no group \<open>n\<close>.
\<close>

datatype error = IndexError

type_synonym match = "string \<times> string list"

definition re_search :: "rx_item list \<Rightarrow> string \<Rightarrow> match option" where
  "re_search r s = (case rx_find r s of None \<Rightarrow> None | Some (pre, m, g, rest) \<Rightarrow> Some (m, g))"

definition group :: "match \<Rightarrow> nat \<Rightarrow> error + string" where
  "group m n = (if n = 0 then Inr (fst m)
                else if n \<le> length (snd m) then Inr (snd m ! (n - 1))
                else Inl IndexError)"

text \<open>The patterns, in the order the scripts use them.\<close>

definition boundary_lit :: string where
  "boundary_lit = ''<div id=\"div_block-4-15103-''"

definition boundary_rx :: "rx_item list" where
  "boundary_rx = lit boundary_lit @ [Rep 1 is_digit, Chr (\<lambda>c. c = CHR 0x22)]"

definition title_lit :: string where
  "title_lit = ''<span id=\"span-225-15124-''"

definition title_rx :: "rx_item list" where
  "title_rx = lit title_lit @
     [Rep 1 is_digit, Chr (\<lambda>c. c = CHR 0x22), Rep 0 (\<lambda>c. c \<noteq> CHR ''>''), Chr (\<lambda>c. c = CHR ''>''),
      Cap 1 (\<lambda>c. c \<noteq> CHR ''<'')] @ lit ''</span>''"

definition link_rx :: "rx_item list" where
  "link_rx = lit ''<a'' @ [Rep 1 is_space] @ lit ''href=\"'' @
     [Cap 1 (\<lambda>c. c \<noteq> CHR 0x22), Chr (\<lambda>c. c = CHR 0x22)]"

definition img_rx :: "rx_item list" where
  "img_rx = lit ''<img'' @ [Rep 1 (\<lambda>c. c \<noteq> CHR ''>'')] @ lit ''src=\"'' @
     [Cap 1 (\<lambda>c. c \<noteq> CHR 0x22), Chr (\<lambda>c. c = CHR 0x22)]"


section \<open>The extraction, as both scripts run it\<close>

text \<open>
  \<open>re.split(r'<div id="div_block-4-15103-\d+"', html)\<close>: the text before the leftmost match
  of the block boundary, then the split of the text after that match. The pattern has no
  group, so the result holds the segments only; when nothing matches it is \<open>[html]\<close>.
\<close>

function re_split :: "string \<Rightarrow> string list" where
  "re_split s =
     (case rx_find boundary_rx s of
        None \<Rightarrow> [s]
      | Some (pre, m, g, rest) \<Rightarrow> pre # re_split rest)"
  by pat_completeness auto
termination
proof (relation "measure length")
  show "wf (measure length)" by simp
next
  fix s :: string and x2 pre y m ya g rest
  assume a: "rx_find boundary_rx s = Some x2" "(pre, y) = x2" "(m, ya) = y" "(g, rest) = ya"
  have rep: "\<exists>t. length t \<le> length s \<and> k t = Some y"
    if "rx_rep k n p s = Some (x, y)"
    for k :: "string \<Rightarrow> (string \<times> string list \<times> string) option" and n p s x y
    using that
  proof (induction s arbitrary: n x y)
    case Nil
    then show ?case by (auto split: if_splits)
  next
    case (Cons c s)
    show ?case
    proof (cases "p c \<and> rx_rep k (n - 1) p s \<noteq> None")
      case True
      then obtain x' y' where r: "rx_rep k (n - 1) p s = Some (x', y')" by auto
      with True Cons.prems have "y = y'" by auto
      with Cons.IH[OF r] obtain t where "length t \<le> length s" "k t = Some y" by auto
      then show ?thesis by (intro exI[of _ t]) simp
    next
      case False
      with Cons.prems have "k (c # s) = Some y"
        by (auto split: if_splits option.splits)
      then show ?thesis by (intro exI[of _ "c # s"]) simp
    qed
  qed
  have mat: "length rest \<le> length s" if "rx_match r s = Some (m, g, rest)" for r s m g rest
    using that
  proof (induction r arbitrary: s m g rest)
    case Nil
    then show ?case by simp
  next
    case (Cons a r)
    show ?case
    proof (cases a)
      case (Chr p)
      with Cons.prems obtain c t m' where "s = c # t" "rx_match r t = Some (m', g, rest)"
        by (auto split: list.splits if_splits option.splits)
      with Cons.IH[of t m' g rest] show ?thesis by simp
    next
      case (Rep n p)
      with Cons.prems obtain x m' where "rx_rep (\<lambda>t. rx_match r t) n p s = Some (x, m', g, rest)"
        by (auto split: option.splits)
      from rep[OF this] Cons.IH show ?thesis by fastforce
    next
      case (Cap n p)
      with Cons.prems obtain x m' g' where "rx_rep (\<lambda>t. rx_match r t) n p s = Some (x, m', g', rest)"
        by (auto split: option.splits)
      from rep[OF this] Cons.IH show ?thesis by fastforce
    qed
  qed
  have chr: "length rest < length s" if "rx_match (Chr p # r) s = Some (m, g, rest)" for p r s m g rest
  proof -
    from that obtain c t m' where "s = c # t" "rx_match r t = Some (m', g, rest)"
      by (auto split: list.splits if_splits option.splits)
    with mat[of r t m' g rest] show ?thesis by simp
  qed
  have fnd: "length rest < length s" if "rx_find (Chr p # r) s = Some (pre, m, g, rest)"
    for p r s pre m g rest
    using that
  proof (induction s arbitrary: pre)
    case Nil
    then show ?case by simp
  next
    case (Cons c s)
    show ?case
    proof (cases "rx_match (Chr p # r) (c # s)")
      case (Some v)
      with Cons.prems have "rx_match (Chr p # r) (c # s) = Some (m, g, rest)" by auto
      from chr[OF this] show ?thesis .
    next
      case None
      with Cons.prems obtain pre' where "rx_find (Chr p # r) s = Some (pre', m, g, rest)"
        by (auto split: option.splits)
      from Cons.IH[OF this] show ?thesis by simp
    qed
  qed
  obtain p r where "boundary_rx = Chr p # r"
    by (simp add: boundary_rx_def boundary_lit_def lit_def)
  with a have "rx_find (Chr p # r) s = Some (pre, m, g, rest)" by auto
  from fnd[OF this] show "(rest, s) \<in> measure length" by simp
qed

text \<open>The items of \<open>parse_portfolio_html.py\<close> are dictionaries with four keys.\<close>

record item =
  index :: int
  title :: string
  image_url :: string
  link :: string

text \<open>\<open>m.group(1).strip() if m else ""\<close>, the expression both scripts use for every field.\<close>

definition group1_strip :: "match option \<Rightarrow> error + string" where
  "group1_strip m =
     (case m of
        None \<Rightarrow> Inr []
      | Some mo \<Rightarrow> (case group mo 1 of Inl e \<Rightarrow> Inl e | Inr t \<Rightarrow> Inr (strip t)))"

text \<open>The loop body of \<open>parse_portfolio_html.py\<close> for the block \<open>block\<close> at position \<open>i\<close>.\<close>

definition parse_item :: "int \<Rightarrow> string \<Rightarrow> error + item" where
  "parse_item i block =
     (case group1_strip (re_search title_rx block) of
        Inl e \<Rightarrow> Inl e
      | Inr title_s \<Rightarrow>
     (case group1_strip (re_search link_rx block) of
        Inl e \<Rightarrow> Inl e
      | Inr link0 \<Rightarrow>
     (let link_s = (if link0 = [] \<or> link0 = ''#'' then [] else link0) in
      case group1_strip (re_search img_rx block) of
        Inl e \<Rightarrow> Inl e
      | Inr img \<Rightarrow>
          Inr \<lparr>index = i + 1, title = title_s, image_url = img,
               link = (if link_s = [] then ''(no link)'' else link_s)\<rparr>)))"

fun parse_loop :: "int \<Rightarrow> string list \<Rightarrow> item list \<Rightarrow> error + item list" where
  "parse_loop i [] out = Inr out"
| "parse_loop i (block # blocks) out =
     (case parse_item i block of
        Inl e \<Rightarrow> Inl e
      | Inr it \<Rightarrow> parse_loop (i + 1) blocks (out @ [it]))"

definition parse_extract :: "string \<Rightarrow> error + item list" where
  "parse_extract html = parse_loop 0 (drop 1 (re_split html)) []"

text \<open>The loop body of \<open>build_portfolio_list.py\<close>; its items are tuples.\<close>

definition build_item :: "int \<Rightarrow> string \<Rightarrow> error + (int \<times> string \<times> string \<times> string)" where
  "build_item i block =
     (case group1_strip (re_search title_rx block) of
        Inl e \<Rightarrow> Inl e
      | Inr title_s \<Rightarrow>
     (case group1_strip (re_search link_rx block) of
        Inl e \<Rightarrow> Inl e
      | Inr link0 \<Rightarrow>
     (let link1 = strip link0;
          link_s = (if link1 = [] \<or> link1 = ''#'' then ''(no link)'' else link1) in
      case group1_strip (re_search img_rx block) of
        Inl e \<Rightarrow> Inl e
      | Inr img \<Rightarrow> Inr (i + 1, title_s, img, link_s))))"

fun build_loop ::
  "int \<Rightarrow> string list \<Rightarrow> (int \<times> string \<times> string \<times> string) list \<Rightarrow>
   error + (int \<times> string \<times> string \<times> string) list" where
  "build_loop i [] out = Inr out"
| "build_loop i (block # blocks) out =
     (case build_item i block of
        Inl e \<Rightarrow> Inl e
      | Inr it \<Rightarrow> build_loop (i + 1) blocks (out @ [it]))"

definition build_extract :: "string \<Rightarrow> error + (int \<times> string \<times> string \<times> string) list" where
  "build_extract html = build_loop 0 (drop 1 (re_split html)) []"

section \<open>Output\<close>

text \<open>\<open>str(i)\<close> for an integer, as the f-strings format the index.\<close>

fun str_nat :: "nat \<Rightarrow> string" where
  "str_nat n = (if n < 10 then [''0123456789'' ! n] else str_nat (n div 10) @ [''0123456789'' ! (n mod 10)])"

definition str_int :: "int \<Rightarrow> string" where
  "str_int i = (if i < 0 then CHR ''-'' # str_nat (nat (- i)) else str_nat (nat i))"

text \<open>The lines \<open>parse_portfolio_html.py\<close> prints, four for each item.\<close>

definition parse_print :: "item list \<Rightarrow> string list" where
  "parse_print out =
     concat (map (\<lambda>it. [str_int (index it) @ ''. **'' @ title it @ ''**'',
                         ''   - Image: '' @ image_url it,
                         ''   - Link:  '' @ link it,
                         []]) out)"

definition parse_main :: "string \<Rightarrow> error + string list" where
  "parse_main html = (case parse_extract html of Inl e \<Rightarrow> Inl e | Inr out \<Rightarrow> Inr (parse_print out))"


definition sentinel :: string where
  "sentinel = ''div_block-4-15103-2''"




section \<open>Notions of the specification\<close>

text \<open>
  A block-boundary marker starts at the beginning of \<open>s\<close>: the fixed text, one or more
  digits, and a closing double quote.
\<close>

definition boundary_at :: "string \<Rightarrow> bool" where
  "boundary_at s =
     (prefix boundary_lit s \<and>
      takeWhile is_digit (drop (length boundary_lit) s) \<noteq> [] \<and>
      prefix [CHR 0x22] (dropWhile is_digit (drop (length boundary_lit) s)))"

text \<open>The number of block-boundary markers in a text: the positions where one starts.\<close>

fun count_markers :: "string \<Rightarrow> nat" where
  "count_markers [] = 0"
| "count_markers (c # s) = (if boundary_at (c # s) then 1 else 0) + count_markers s"

text \<open>A title, anchor or image marker starts at the beginning of \<open>s\<close>.\<close>

definition title_at :: "string \<Rightarrow> bool" where
  "title_at s = (rx_match title_rx s \<noteq> None)"

definition anchor_at :: "string \<Rightarrow> bool" where
  "anchor_at s = (rx_match link_rx s \<noteq> None)"

definition image_at :: "string \<Rightarrow> bool" where
  "image_at s = (rx_match img_rx s \<noteq> None)"

text \<open>The value a pattern with one group captures in a block, if the pattern occurs.\<close>

definition captured :: "rx_item list \<Rightarrow> string \<Rightarrow> string option" where
  "captured r block =
     (case re_search r block of
        None \<Rightarrow> None
      | Some (m, g) \<Rightarrow> (case g of [] \<Rightarrow> None | v # vs \<Rightarrow> Some v))"

text \<open>The captured value trimmed, or the empty text when the pattern does not occur.\<close>

definition field_text :: "rx_item list \<Rightarrow> string \<Rightarrow> string" where
  "field_text r block = (case captured r block of None \<Rightarrow> [] | Some v \<Rightarrow> strip v)"

text \<open>A text carries no leading or trailing whitespace.\<close>

definition trimmed :: "string \<Rightarrow> bool" where
  "trimmed s = (s = [] \<or> (\<not> is_space (hd s) \<and> \<not> is_space (last s)))"


text \<open>
  The language of a pattern, with no reference to how a matcher searches: \<open>rx_lang r m g\<close>
  says that the text \<open>m\<close> is matched by the whole pattern \<open>r\<close> with the groups \<open>g\<close>.
\<close>

fun rx_lang :: "rx_item list \<Rightarrow> string \<Rightarrow> string list \<Rightarrow> bool" where
  "rx_lang [] m g = (m = [] \<and> g = [])"
| "rx_lang (Chr p # r) m g = (\<exists>c m'. m = c # m' \<and> p c \<and> rx_lang r m' g)"
| "rx_lang (Rep n p # r) m g =
     (\<exists>x m'. m = x @ m' \<and> n \<le> length x \<and> list_all p x \<and> rx_lang r m' g)"
| "rx_lang (Cap n p # r) m g =
     (\<exists>x m' g'. m = x @ m' \<and> g = x # g' \<and> n \<le> length x \<and> list_all p x \<and> rx_lang r m' g')"

text \<open>The text \<open>m\<close> is a block-boundary marker, from its \<open><\<close> to its closing quote.\<close>

definition is_marker :: "string \<Rightarrow> bool" where
  "is_marker m = (\<exists>ds. ds \<noteq> [] \<and> list_all is_digit ds \<and> m = boundary_lit @ ds @ [CHR 0x22])"

text \<open>The fields of an item are clean: no \<open><\<close> in the title, no double quote in the image or in
  a link other than the placeholder, none of the three with leading or trailing whitespace,
  and the link not empty.\<close>

definition clean_item :: "string \<Rightarrow> string \<Rightarrow> string \<Rightarrow> bool" where
  "clean_item t im l =
     (CHR ''<'' \<notin> set t \<and> CHR 0x22 \<notin> set im \<and> (l = ''(no link)'' \<or> CHR 0x22 \<notin> set l) \<and>
      trimmed t \<and> trimmed im \<and> trimmed l \<and> l \<noteq> [])"

text \<open>An item of \<open>parse_portfolio_html.py\<close> as the tuple \<open>build_portfolio_list.py\<close> would hold.\<close>

definition as_tuple :: "item \<Rightarrow> int \<times> string \<times> string \<times> string" where
  "as_tuple it = (index it, title it, image_url it, link it)"

section \<open>Example inputs\<close>

text \<open>Two blocks after a preamble, and a text with no block boundary.\<close>

definition html_two :: string where
  "html_two = ''x<div id=\"div_block-4-15103-2\">A<div id=\"div_block-4-15103-10\">B''"

definition html_none :: string where
  "html_none = ''no markers here''"

text \<open>A first block with no title, anchor or image, and the body of a second block with all three.\<close>

definition block_one :: string where
  "block_one = ''<div id=\"div_block-4-15103-1\"><p>one</p>''"

definition body_two :: string where
  "body_two = ''><span id=\"span-225-15124-9\">Two</span><a href=\"u\"><img src=\"i.png\">''"

text \<open>Blocks (the text after a boundary marker) with an anchor: one whose target is the text
  of the placeholder itself, one whose target is \<open>#\<close> between spaces, one with two anchors.\<close>

definition block_nolink :: string where
  "block_nolink = ''><a href=\"(no link)\">x</a>''"

definition block_hash :: string where
  "block_hash = ''><a  href=\" # \">x</a>''"

definition block_plain :: string where
  "block_plain = ''><a href=\" http://x/a \">x</a><a href=\"http://x/b\">y</a>''"

text \<open>One block whose title, anchor and image values carry whitespace around them.\<close>

definition html_messy :: string where
  "html_messy = ''<div id=\"div_block-4-15103-1\"><span id=\"span-225-15124-1\">  Alpha  </span><a href=\" http://x/a \"><img class=\"c\" src=\" a.png \">''"






text \<open>A block whose first anchor has an empty target.\<close>

definition block_empty_href :: string where
  "block_empty_href = ''><a href=\"\">x</a><a href=\"z\">y</a>''"

section \<open>Properties of the matcher\<close>

declare re_split.simps [simp del]

lemma rx_rep_sound:
  "rx_rep k n p s = Some (x, y) \<Longrightarrow> \<exists>t. s = x @ t \<and> list_all p x \<and> n \<le> length x \<and> k t = Some y"
proof (induction s arbitrary: n x y)
  case Nil
  then show ?case by (auto split: if_splits)
next
  case (Cons c s)
  show ?case
  proof (cases "p c \<and> rx_rep k (n - 1) p s \<noteq> None")
    case True
    then obtain x' y' where r: "rx_rep k (n - 1) p s = Some (x', y')" by auto
    with True Cons.prems have "x = c # x'" "y = y'" by auto
    moreover from Cons.IH[OF r] obtain t where "s = x' @ t" "list_all p x'" "n - 1 \<le> length x'" "k t = Some y'"
      by blast
    ultimately show ?thesis using True by auto
  next
    case False
    with Cons.prems have "n = 0" "x = []" "k (c # s) = Some y"
      by (auto split: if_splits option.splits)
    then show ?thesis by simp
  qed
qed

lemma rx_match_append: "rx_match r s = Some (m, g, rest) \<Longrightarrow> s = m @ rest"
proof (induction r arbitrary: s m g rest)
  case Nil
  then show ?case by simp
next
  case (Cons a r)
  show ?case
  proof (cases a)
    case (Chr p)
    with Cons.prems Cons.IH show ?thesis
      by (auto split: list.splits if_splits option.splits)
  next
    case (Rep n p)
    with Cons.prems obtain x m' where r: "rx_rep (\<lambda>t. rx_match r t) n p s = Some (x, m', g, rest)" "m = x @ m'"
      by (auto split: option.splits)
    from rx_rep_sound[OF r(1)] Cons.IH r(2) show ?thesis by auto
  next
    case (Cap n p)
    with Cons.prems obtain x m' g' where r: "rx_rep (\<lambda>t. rx_match r t) n p s = Some (x, m', g', rest)" "m = x @ m'"
      by (auto split: option.splits)
    from rx_rep_sound[OF r(1)] Cons.IH r(2) show ?thesis by auto
  qed
qed

lemma rx_match_lit:
  "rx_match (lit l @ r) s =
     (if prefix l s
      then (case rx_match r (drop (length l) s) of None \<Rightarrow> None
            | Some (m, g, rest) \<Rightarrow> Some (l @ m, g, rest))
      else None)"
proof (induction l arbitrary: s)
  case Nil
  then show ?case by (simp add: lit_def split: option.splits)
next
  case (Cons c l)
  from Cons.IH show ?case
    by (cases s) (auto simp: lit_def split: option.splits)
qed

lemma rx_rep_disjoint:
  assumes "\<And>c t. p c \<Longrightarrow> k (c # t) = None"
  shows "rx_rep k n p s =
     (if n \<le> length (takeWhile p s) then map_option (Pair (takeWhile p s)) (k (dropWhile p s)) else None)"
proof (induction s arbitrary: n)
  case Nil
  then show ?case by simp
next
  case (Cons c s)
  show ?case
  proof (cases "p c")
    case True
    with Cons.IH[of "n - 1"] assms[OF True] show ?thesis
      by (auto split: option.splits)
  next
    case False
    then show ?thesis by simp
  qed
qed

lemma rx_find_sound:
  "rx_find r s = Some (pre, m, g, rest) \<Longrightarrow>
     s = pre @ m @ rest \<and> rx_match r (m @ rest) = Some (m, g, rest) \<and>
     (\<forall>i < length pre. rx_match r (drop i s) = None)"
proof (induction s arbitrary: pre)
  case Nil
  then have m: "rx_match r [] = Some (m, g, rest)" "pre = []" by (auto split: option.splits)
  from rx_match_append[OF m(1)] m show ?case by simp
next
  case (Cons c s)
  show ?case
  proof (cases "rx_match r (c # s)")
    case (Some a)
    with Cons.prems have m: "rx_match r (c # s) = Some (m, g, rest)" "pre = []" by auto
    from rx_match_append[OF m(1)] m show ?thesis by simp
  next
    case None
    with Cons.prems obtain pre' where p: "rx_find r s = Some (pre', m, g, rest)" "pre = c # pre'"
      by (auto split: option.splits)
    from Cons.IH[OF p(1)] p(2) None show ?thesis
      by (auto simp: less_Suc_eq_0_disj)
  qed
qed

lemma rx_find_None: "rx_find r s = None \<longleftrightarrow> (\<forall>i \<le> length s. rx_match r (drop i s) = None)"
proof (induction s)
  case Nil
  then show ?case by (auto split: option.splits)
next
  case (Cons c s)
  show ?case
  proof (cases "rx_match r (c # s)")
    case (Some a)
    have "\<not> (\<forall>i \<le> length (c # s). rx_match r (drop i (c # s)) = None)"
    proof
      assume "\<forall>i \<le> length (c # s). rx_match r (drop i (c # s)) = None"
      from this[rule_format, of 0] Some show False by simp
    qed
    with Some show ?thesis by (auto split: prod.splits)
  next
    case None
    have "(\<forall>i \<le> length (c # s). rx_match r (drop i (c # s)) = None) \<longleftrightarrow>
          (\<forall>i \<le> length s. rx_match r (drop i s) = None)"
    proof
      assume a: "\<forall>i \<le> length (c # s). rx_match r (drop i (c # s)) = None"
      show "\<forall>i \<le> length s. rx_match r (drop i s) = None"
      proof (intro allI impI)
        fix i assume "i \<le> length s"
        with a[rule_format, of "Suc i"] show "rx_match r (drop i s) = None" by simp
      qed
    next
      assume a: "\<forall>i \<le> length s. rx_match r (drop i s) = None"
      show "\<forall>i \<le> length (c # s). rx_match r (drop i (c # s)) = None"
      proof (intro allI impI)
        fix i assume i: "i \<le> length (c # s)"
        show "rx_match r (drop i (c # s)) = None"
        proof (cases i)
          case 0
          with None show ?thesis by simp
        next
          case (Suc j)
          with i a[rule_format, of j] show ?thesis by simp
        qed
      qed
    qed
    with Cons.IH None show ?thesis by (auto split: option.splits)
  qed
qed

lemma rx_find_first:
  "(\<forall>i < length pre. rx_match r (drop i (pre @ t)) = None) \<Longrightarrow> rx_match r t = Some (m, g, rest)
   \<Longrightarrow> rx_find r (pre @ t) = Some (pre, m, g, rest)"
proof (induction pre)
  case Nil
  then show ?case by (cases t) auto
next
  case (Cons c pre)
  from Cons.prems(1) have 0: "rx_match r (c # pre @ t) = None" by force
  from Cons.prems(1) have "\<forall>i < length pre. rx_match r (drop i (pre @ t)) = None" by force
  from Cons.IH[OF this Cons.prems(2)] 0 show ?case by simp
qed

lemma rx_match_Rep_Chr:
  assumes "\<And>c. p c \<Longrightarrow> \<not> q c"
  shows "rx_match (Rep n p # Chr q # r) s =
     (if n \<le> length (takeWhile p s)
      then (case rx_match (Chr q # r) (dropWhile p s) of None \<Rightarrow> None
            | Some (m, g, rest) \<Rightarrow> Some (takeWhile p s @ m, g, rest))
      else None)"
proof -
  have "rx_rep (\<lambda>t. rx_match (Chr q # r) t) n p s =
     (if n \<le> length (takeWhile p s)
      then map_option (Pair (takeWhile p s)) (rx_match (Chr q # r) (dropWhile p s)) else None)"
    by (rule rx_rep_disjoint) (simp add: assms)
  then show ?thesis
    by (subst rx_match.simps) (auto split: option.splits simp del: rx_match.simps)
qed

lemma rx_match_Cap_Chr:
  assumes "\<And>c. p c \<Longrightarrow> \<not> q c"
  shows "rx_match (Cap n p # Chr q # r) s =
     (if n \<le> length (takeWhile p s)
      then (case rx_match (Chr q # r) (dropWhile p s) of None \<Rightarrow> None
            | Some (m, g, rest) \<Rightarrow> Some (takeWhile p s @ m, takeWhile p s # g, rest))
      else None)"
proof -
  have "rx_rep (\<lambda>t. rx_match (Chr q # r) t) n p s =
     (if n \<le> length (takeWhile p s)
      then map_option (Pair (takeWhile p s)) (rx_match (Chr q # r) (dropWhile p s)) else None)"
    by (rule rx_rep_disjoint) (simp add: assms)
  then show ?thesis
    by (subst rx_match.simps) (auto split: option.splits simp del: rx_match.simps)
qed

lemma takeWhile_stop:
  "list_all p xs \<Longrightarrow> \<not> p y \<Longrightarrow> takeWhile p (xs @ y # ys) = xs"
  by (induction xs) auto

lemma dropWhile_stop:
  "list_all p xs \<Longrightarrow> \<not> p y \<Longrightarrow> dropWhile p (xs @ y # ys) = y # ys"
  by (induction xs) auto

lemma not_digit_dq: "\<not> is_digit (CHR 0x22)"
  by (simp add: is_digit_def)

lemma boundary_match_computed:
  "rx_match boundary_rx s =
     (if boundary_at s
      then Some (boundary_lit @ takeWhile is_digit (drop (length boundary_lit) s) @ [CHR 0x22], [],
                 tl (dropWhile is_digit (drop (length boundary_lit) s)))
      else None)"
proof -
  let ?tw = "takeWhile is_digit (drop (length boundary_lit) s)"
  let ?u = "dropWhile is_digit (drop (length boundary_lit) s)"
  have d: "\<And>c. is_digit c \<Longrightarrow> \<not> (c = CHR 0x22)" using not_digit_dq by auto
  have m: "rx_match boundary_rx s =
     (if prefix boundary_lit s \<and> ?tw \<noteq> []
      then (case rx_match [Chr (\<lambda>c. c = CHR 0x22)] ?u of None \<Rightarrow> None
            | Some (m, g, rest) \<Rightarrow> Some (boundary_lit @ ?tw @ m, g, rest))
      else None)"
    unfolding boundary_rx_def
    by (simp add: rx_match_lit rx_match_Rep_Chr[where q = "\<lambda>c. c = CHR 0x22", OF d] Suc_le_eq
          del: rx_match.simps split: option.splits)
  show ?thesis
  proof (cases ?u)
    case Nil
    then show ?thesis by (simp only: m boundary_at_def) simp
  next
    case (Cons c t)
    then show ?thesis by (simp only: m boundary_at_def) (simp add: prefix_Cons)
  qed
qed

lemma boundary_match_iff:
  "rx_match boundary_rx s = Some (m, g, rest) \<longleftrightarrow>
     g = [] \<and> s = m @ rest \<and>
     (\<exists>ds. ds \<noteq> [] \<and> list_all is_digit ds \<and> m = boundary_lit @ ds @ [CHR 0x22])"
proof
  assume a: "rx_match boundary_rx s = Some (m, g, rest)"
  let ?t = "drop (length boundary_lit) s"
  from a have b: "boundary_at s" "m = boundary_lit @ takeWhile is_digit ?t @ [CHR 0x22]" "g = []"
    by (auto simp: boundary_match_computed split: if_splits)
  have c: "list_all is_digit (takeWhile is_digit ?t)"
    by (simp add: list_all_iff) (meson set_takeWhileD)
  from b(1) have e: "takeWhile is_digit ?t \<noteq> []" by (simp add: boundary_at_def)
  from c e b(2) have "\<exists>ds. ds \<noteq> [] \<and> list_all is_digit ds \<and> m = boundary_lit @ ds @ [CHR 0x22]"
    by blast
  with b(3) rx_match_append[OF a] show "g = [] \<and> s = m @ rest \<and>
     (\<exists>ds. ds \<noteq> [] \<and> list_all is_digit ds \<and> m = boundary_lit @ ds @ [CHR 0x22])"
    by blast
next
  assume "g = [] \<and> s = m @ rest \<and>
     (\<exists>ds. ds \<noteq> [] \<and> list_all is_digit ds \<and> m = boundary_lit @ ds @ [CHR 0x22])"
  then obtain ds where d: "g = []" "s = boundary_lit @ ds @ CHR 0x22 # rest" "ds \<noteq> []"
    "list_all is_digit ds" "m = boundary_lit @ ds @ [CHR 0x22]" by auto
  then show "rx_match boundary_rx s = Some (m, g, rest)"
    by (simp add: boundary_match_computed boundary_at_def takeWhile_stop dropWhile_stop not_digit_dq)
qed

lemma boundary_at_iff: "boundary_at s \<longleftrightarrow> rx_match boundary_rx s \<noteq> None"
  by (simp add: boundary_match_computed)

lemma rx_rep_complete:
  "list_all p x \<Longrightarrow> n \<le> length x \<Longrightarrow> k t \<noteq> None \<Longrightarrow> rx_rep k n p (x @ t) \<noteq> None"
proof (induction x arbitrary: n)
  case Nil
  then show ?case by (cases t) (auto split: option.splits)
next
  case (Cons c x)
  from Cons.prems have "rx_rep k (n - 1) p (x @ t) \<noteq> None"
    by (intro Cons.IH) auto
  with Cons.prems show ?case by (auto split: option.splits)
qed

lemma rx_match_sound: "rx_match r s = Some (m, g, rest) \<Longrightarrow> rx_lang r m g"
proof (induction r arbitrary: s m g rest)
  case Nil
  then show ?case by simp
next
  case (Cons a r)
  show ?case
  proof (cases a)
    case (Chr p)
    with Cons.prems Cons.IH show ?thesis
      by (auto split: list.splits if_splits option.splits)
  next
    case (Rep n p)
    with Cons.prems obtain x m' where r: "rx_rep (\<lambda>t. rx_match r t) n p s = Some (x, m', g, rest)" "m = x @ m'"
      by (auto split: option.splits)
    from rx_rep_sound[OF r(1)] obtain t where t: "list_all p x" "n \<le> length x"
      "rx_match r t = Some (m', g, rest)" by auto
    from Cons.IH[OF t(3)] t(1,2) r(2) Rep show ?thesis by auto
  next
    case (Cap n p)
    with Cons.prems obtain x m' g' where r: "rx_rep (\<lambda>t. rx_match r t) n p s = Some (x, m', g', rest)"
      "m = x @ m'" "g = x # g'"
      by (auto split: option.splits)
    from rx_rep_sound[OF r(1)] obtain t where t: "list_all p x" "n \<le> length x"
      "rx_match r t = Some (m', g', rest)" by auto
    from Cons.IH[OF t(3)] t(1,2) r(2,3) Cap show ?thesis by auto
  qed
qed

lemma rx_match_complete: "rx_lang r m g \<Longrightarrow> rx_match r (m @ rest) \<noteq> None"
proof (induction r arbitrary: m g)
  case Nil
  then show ?case by simp
next
  case (Cons a r)
  show ?case
  proof (cases a)
    case (Chr p)
    with Cons.prems Cons.IH show ?thesis by (fastforce split: option.splits)
  next
    case (Rep n p)
    with Cons.prems obtain x m' where x: "m = x @ m'" "n \<le> length x" "list_all p x" "rx_lang r m' g"
      by auto
    from Cons.IH[OF x(4)] have "rx_match r (m' @ rest) \<noteq> None" .
    from rx_rep_complete[OF x(3) x(2), of "\<lambda>t. rx_match r t", OF this] x(1) Rep
    show ?thesis by (auto split: option.splits)
  next
    case (Cap n p)
    with Cons.prems obtain x m' g' where x: "m = x @ m'" "n \<le> length x" "list_all p x" "rx_lang r m' g'"
      by auto
    from Cons.IH[OF x(4)] have "rx_match r (m' @ rest) \<noteq> None" .
    from rx_rep_complete[OF x(3) x(2), of "\<lambda>t. rx_match r t", OF this] x(1) Cap
    show ?thesis by (auto split: option.splits)
  qed
qed

lemma rx_match_occurs:
  "rx_match r s \<noteq> None \<longleftrightarrow> (\<exists>m g rest. s = m @ rest \<and> rx_lang r m g)"
proof
  assume "rx_match r s \<noteq> None"
  then obtain m g rest where a: "rx_match r s = Some (m, g, rest)" by auto
  from rx_match_append[OF a] rx_match_sound[OF a] show "\<exists>m g rest. s = m @ rest \<and> rx_lang r m g"
    by blast
next
  assume "\<exists>m g rest. s = m @ rest \<and> rx_lang r m g"
  then show "rx_match r s \<noteq> None" using rx_match_complete by blast
qed

lemma split_at_fresh:
  "c \<notin> set xs \<Longrightarrow> xs @ ys = u @ c # w \<Longrightarrow> \<exists>v. u = xs @ v \<and> ys = v @ c # w"
proof (induction xs arbitrary: u)
  case Nil
  then show ?case by simp
next
  case (Cons x xs)
  then show ?case by (cases u) auto
qed

lemma not_digit_lt: "\<not> is_digit (CHR ''<'')"
  by (simp add: is_digit_def)

lemma marker_shape:
  assumes "list_all is_digit ds" "m = boundary_lit @ ds @ [CHR 0x22]"
  shows "\<exists>m'. m = CHR ''<'' # m' \<and> CHR ''<'' \<notin> set m'"
proof -
  from assms(1) not_digit_lt have "CHR ''<'' \<notin> set ds"
    by (auto simp: list_all_iff)
  then have "CHR ''<'' \<notin> set (''div id=\"div_block-4-15103-'' @ ds @ [CHR 0x22])" by simp
  moreover have "m = CHR ''<'' # (''div id=\"div_block-4-15103-'' @ ds @ [CHR 0x22])"
    by (simp add: assms(2) boundary_lit_def)
  ultimately show ?thesis by blast
qed

lemma boundary_match_shape:
  assumes "rx_match boundary_rx s = Some (m, g, rest)"
  shows "g = [] \<and> s = m @ rest \<and> (\<exists>m'. m = CHR ''<'' # m' \<and> CHR ''<'' \<notin> set m')"
proof -
  from assms obtain ds where "g = []" "s = m @ rest" "list_all is_digit ds"
    "m = boundary_lit @ ds @ [CHR 0x22]" unfolding boundary_match_iff by blast
  with marker_shape[of ds m] show ?thesis by blast
qed

lemma boundary_no_lt: "c \<noteq> CHR ''<'' \<Longrightarrow> rx_match boundary_rx (c # s) = None"
proof (rule ccontr)
  assume c: "c \<noteq> CHR ''<''" and "rx_match boundary_rx (c # s) \<noteq> None"
  then obtain m g rest where "rx_match boundary_rx (c # s) = Some (m, g, rest)" by auto
  from boundary_match_shape[OF this] c show False by auto
qed

lemma boundary_Nil: "rx_match boundary_rx [] = None"
  by (simp add: boundary_match_computed boundary_at_def boundary_lit_def)

lemma count_markers_skip: "CHR ''<'' \<notin> set x \<Longrightarrow> count_markers (x @ s) = count_markers s"
  by (induction x) (auto simp: boundary_at_iff boundary_no_lt)

lemma count_markers_pre:
  "(\<forall>i < length pre. rx_match boundary_rx (drop i (pre @ t)) = None)
   \<Longrightarrow> count_markers (pre @ t) = count_markers t"
proof (induction pre)
  case Nil
  then show ?case by simp
next
  case (Cons c pre)
  from Cons.prems have 0: "rx_match boundary_rx (c # pre @ t) = None" by force
  from Cons.prems have "\<forall>i < length pre. rx_match boundary_rx (drop i (pre @ t)) = None" by force
  from Cons.IH[OF this] 0 show ?case by (simp add: boundary_at_iff)
qed

lemma count_markers_none:
  "(\<forall>i \<le> length s. rx_match boundary_rx (drop i s) = None) \<Longrightarrow> count_markers s = 0"
  using count_markers_pre[of s "[]"] by simp

lemma count_markers_match:
  assumes "rx_find boundary_rx s = Some (pre, m, g, rest)"
  shows "count_markers s = Suc (count_markers rest)"
proof -
  from rx_find_sound[OF assms] have s: "s = pre @ m @ rest"
    and m: "rx_match boundary_rx (m @ rest) = Some (m, g, rest)"
    and n: "\<forall>i < length pre. rx_match boundary_rx (drop i s) = None" by auto
  from boundary_match_shape[OF m] obtain m' where m': "m = CHR ''<'' # m'" "CHR ''<'' \<notin> set m'"
    by auto
  from n s have "count_markers s = count_markers (m @ rest)"
    using count_markers_pre[of pre "m @ rest"] by simp
  also have "\<dots> = Suc (count_markers (m' @ rest))"
  proof -
    from m have "boundary_at (m @ rest)" by (simp add: boundary_at_iff)
    then have "boundary_at (CHR ''<'' # m' @ rest)" by (simp add: m'(1))
    then show ?thesis by (simp add: m'(1))
  qed
  also have "count_markers (m' @ rest) = count_markers rest"
    using m'(2) by (rule count_markers_skip)
  finally show ?thesis .
qed

lemma length_re_split: "length (re_split s) = Suc (count_markers s)"
proof (induction s rule: re_split.induct)
  case (1 s)
  show ?case
  proof (cases "rx_find boundary_rx s")
    case None
    then have "count_markers s = 0" by (simp add: rx_find_None count_markers_none)
    with None show ?thesis by (subst re_split.simps) simp
  next
    case (Some a)
    then obtain pre m g rest where f: "rx_find boundary_rx s = Some (pre, m, g, rest)"
      by (cases a) auto
    from "1.IH"[OF f] count_markers_match[OF f] f show ?thesis
      by (subst re_split.simps) simp
  qed
qed

lemma last_dropWhile: "dropWhile P xs \<noteq> [] \<Longrightarrow> last (dropWhile P xs) = last xs"
  by (induction xs) (auto split: if_splits)

lemma trimmed_strip: "trimmed (strip s)"
proof -
  let ?t = "dropWhile is_space s"
  let ?u = "dropWhile is_space (rev ?t)"
  show ?thesis
  proof (cases "?u = []")
    case True
    then show ?thesis by (simp add: trimmed_def strip_def)
  next
    case False
    have "?t = [] \<Longrightarrow> ?u = []" by (simp del: dropWhile_eq_Nil_conv)
    with False have t: "?t \<noteq> []" by blast
    from False have "\<not> is_space (hd ?u)" by (rule hd_dropWhile)
    then have l: "\<not> is_space (last (rev ?u))" using False by (simp add: last_rev)
    from False have "last ?u = last (rev ?t)" by (rule last_dropWhile)
    also have "\<dots> = hd ?t" using t by (simp add: last_rev)
    finally have "hd (rev ?u) = hd ?t" using False by (simp add: hd_rev)
    moreover from t have "\<not> is_space (hd ?t)" by (rule hd_dropWhile)
    ultimately have "\<not> is_space (hd (rev ?u))" by simp
    with l False show ?thesis by (simp add: trimmed_def strip_def)
  qed
qed

lemma strip_trimmed: "trimmed t \<Longrightarrow> strip t = t"
proof (cases "t = []")
  case True
  then show ?thesis by (simp add: strip_def)
next
  case False
  assume "trimmed t"
  with False have h: "\<not> is_space (hd t)" "\<not> is_space (last t)" by (auto simp: trimmed_def)
  from h(1) False have 1: "dropWhile is_space t = t" by (cases t) auto
  from h(2) False have "\<not> is_space (hd (rev t))" by (simp add: hd_rev)
  with False have "dropWhile is_space (rev t) = rev t" by (cases "rev t") auto
  with 1 show ?thesis by (simp add: strip_def)
qed

lemma strip_idem: "strip (strip s) = strip s"
  by (rule strip_trimmed) (rule trimmed_strip)

lemma set_strip: "set (strip s) \<subseteq> set s"
  by (auto simp: strip_def dest!: set_dropWhileD)


lemma rx_lang_lit: "rx_lang (lit l @ r) m g \<longleftrightarrow> (\<exists>m'. m = l @ m' \<and> rx_lang r m' g)"
  by (induction l arbitrary: m) (auto simp: lit_def)

lemma rx_lang_lit_end: "rx_lang (lit l) m g \<longleftrightarrow> m = l \<and> g = []"
  using rx_lang_lit[of l "[]" m g] by auto

lemma title_lang:
  "rx_lang title_rx m g \<longleftrightarrow>
     (\<exists>ds a x. m = title_lit @ ds @ [CHR 0x22] @ a @ ''>'' @ x @ ''</span>'' \<and> g = [x] \<and>
        ds \<noteq> [] \<and> list_all is_digit ds \<and> CHR ''>'' \<notin> set a \<and> x \<noteq> [] \<and> CHR ''<'' \<notin> set x)"
proof -
  have n: "\<And>c xs. list_all (\<lambda>x. x \<noteq> c) xs \<longleftrightarrow> c \<notin> set xs" by (auto simp: list_all_iff)
  have "rx_lang title_rx m g \<longleftrightarrow>
     (\<exists>m1. m = title_lit @ m1 \<and>
       (\<exists>ds m2. m1 = ds @ m2 \<and> 1 \<le> length ds \<and> list_all is_digit ds \<and>
         (\<exists>m3. m2 = CHR 0x22 # m3 \<and>
           (\<exists>a m4. m3 = a @ m4 \<and> CHR ''>'' \<notin> set a \<and>
             (\<exists>m5. m4 = CHR ''>'' # m5 \<and>
               (\<exists>x. m5 = x @ ''</span>'' \<and> g = [x] \<and> 1 \<le> length x \<and> CHR ''<'' \<notin> set x))))))"
    unfolding title_rx_def rx_lang_lit
    by (simp add: rx_lang_lit_end n)
  also have "\<dots> \<longleftrightarrow> (\<exists>ds a x. m = title_lit @ ds @ [CHR 0x22] @ a @ ''>'' @ x @ ''</span>'' \<and> g = [x] \<and>
        ds \<noteq> [] \<and> list_all is_digit ds \<and> CHR ''>'' \<notin> set a \<and> x \<noteq> [] \<and> CHR ''<'' \<notin> set x)"
    (is "?L \<longleftrightarrow> ?R")
  proof
    assume ?L
    then show ?R by (auto simp: Suc_le_eq)
  next
    assume ?R
    then obtain ds a x where h: "m = title_lit @ ds @ [CHR 0x22] @ a @ ''>'' @ x @ ''</span>''"
      "g = [x]" "ds \<noteq> []" "list_all is_digit ds" "CHR ''>'' \<notin> set a" "x \<noteq> []"
      "CHR ''<'' \<notin> set x" by blast
    show ?L
    proof (intro exI conjI)
      show "m = title_lit @ (ds @ CHR 0x22 # a @ CHR ''>'' # x @ ''</span>'')" using h(1) by simp
      show "ds @ CHR 0x22 # a @ CHR ''>'' # x @ ''</span>'' = ds @ (CHR 0x22 # a @ CHR ''>'' # x @ ''</span>'')"
        by simp
      show "1 \<le> length ds" using h(3) by (simp add: Suc_le_eq)
      show "list_all is_digit ds" by (rule h(4))
      show "CHR 0x22 # a @ CHR ''>'' # x @ ''</span>'' = CHR 0x22 # (a @ CHR ''>'' # x @ ''</span>'')" by simp
      show "a @ CHR ''>'' # x @ ''</span>'' = a @ (CHR ''>'' # x @ ''</span>'')" by simp
      show "CHR ''>'' \<notin> set a" by (rule h(5))
      show "CHR ''>'' # x @ ''</span>'' = CHR ''>'' # (x @ ''</span>'')" by simp
      show "x @ ''</span>'' = x @ ''</span>''" by simp
      show "g = [x]" by (rule h(2))
      show "1 \<le> length x" using h(6) by (simp add: Suc_le_eq)
      show "CHR ''<'' \<notin> set x" by (rule h(7))
    qed
  qed
  finally show ?thesis .
qed


lemma link_lang:
  "rx_lang link_rx m g \<longleftrightarrow>
     (\<exists>ws v. m = ''<a'' @ ws @ ''href=\"'' @ v @ [CHR 0x22] \<and> g = [v] \<and>
        ws \<noteq> [] \<and> list_all is_space ws \<and> v \<noteq> [] \<and> CHR 0x22 \<notin> set v)"
proof -
  have n: "\<And>c xs. list_all (\<lambda>x. x \<noteq> c) xs \<longleftrightarrow> c \<notin> set xs" by (auto simp: list_all_iff)
  have "rx_lang link_rx m g \<longleftrightarrow>
     (\<exists>m1. m = ''<a'' @ m1 \<and>
       (\<exists>ws m2. m1 = ws @ m2 \<and> 1 \<le> length ws \<and> list_all is_space ws \<and>
         (\<exists>m3. m2 = ''href=\"'' @ m3 \<and>
           (\<exists>v. m3 = v @ [CHR 0x22] \<and> g = [v] \<and> 1 \<le> length v \<and> CHR 0x22 \<notin> set v))))"
    unfolding link_rx_def rx_lang_lit
    by (simp add: rx_lang_lit n)
  also have "\<dots> \<longleftrightarrow> (\<exists>ws v. m = ''<a'' @ ws @ ''href=\"'' @ v @ [CHR 0x22] \<and> g = [v] \<and>
        ws \<noteq> [] \<and> list_all is_space ws \<and> v \<noteq> [] \<and> CHR 0x22 \<notin> set v)"
    (is "?L \<longleftrightarrow> ?R")
  proof
    assume ?L
    then show ?R by (auto simp: Suc_le_eq)
  next
    assume ?R
    then obtain ws v where h: "m = ''<a'' @ ws @ ''href=\"'' @ v @ [CHR 0x22]" "g = [v]"
      "ws \<noteq> []" "list_all is_space ws" "v \<noteq> []" "CHR 0x22 \<notin> set v" by blast
    show ?L
    proof (intro exI conjI)
      show "m = ''<a'' @ (ws @ ''href=\"'' @ v @ [CHR 0x22])" using h(1) by simp
      show "ws @ ''href=\"'' @ v @ [CHR 0x22] = ws @ (''href=\"'' @ v @ [CHR 0x22])" by simp
      show "1 \<le> length ws" using h(3) by (simp add: Suc_le_eq)
      show "list_all is_space ws" by (rule h(4))
      show "''href=\"'' @ v @ [CHR 0x22] = ''href=\"'' @ (v @ [CHR 0x22])" by simp
      show "v @ [CHR 0x22] = v @ [CHR 0x22]" by simp
      show "g = [v]" by (rule h(2))
      show "1 \<le> length v" using h(5) by (simp add: Suc_le_eq)
      show "CHR 0x22 \<notin> set v" by (rule h(6))
    qed
  qed
  finally show ?thesis .
qed

lemma img_lang:
  "rx_lang img_rx m g \<longleftrightarrow>
     (\<exists>a v. m = ''<img'' @ a @ ''src=\"'' @ v @ [CHR 0x22] \<and> g = [v] \<and>
        a \<noteq> [] \<and> CHR ''>'' \<notin> set a \<and> v \<noteq> [] \<and> CHR 0x22 \<notin> set v)"
proof -
  have n: "\<And>c xs. list_all (\<lambda>x. x \<noteq> c) xs \<longleftrightarrow> c \<notin> set xs" by (auto simp: list_all_iff)
  have "rx_lang img_rx m g \<longleftrightarrow>
     (\<exists>m1. m = ''<img'' @ m1 \<and>
       (\<exists>a m2. m1 = a @ m2 \<and> 1 \<le> length a \<and> CHR ''>'' \<notin> set a \<and>
         (\<exists>m3. m2 = ''src=\"'' @ m3 \<and>
           (\<exists>v. m3 = v @ [CHR 0x22] \<and> g = [v] \<and> 1 \<le> length v \<and> CHR 0x22 \<notin> set v))))"
    unfolding img_rx_def rx_lang_lit
    by (simp add: rx_lang_lit n)
  also have "\<dots> \<longleftrightarrow> (\<exists>a v. m = ''<img'' @ a @ ''src=\"'' @ v @ [CHR 0x22] \<and> g = [v] \<and>
        a \<noteq> [] \<and> CHR ''>'' \<notin> set a \<and> v \<noteq> [] \<and> CHR 0x22 \<notin> set v)"
    (is "?L \<longleftrightarrow> ?R")
  proof
    assume ?L
    then show ?R by (auto simp: Suc_le_eq)
  next
    assume ?R
    then obtain a v where h: "m = ''<img'' @ a @ ''src=\"'' @ v @ [CHR 0x22]" "g = [v]"
      "a \<noteq> []" "CHR ''>'' \<notin> set a" "v \<noteq> []" "CHR 0x22 \<notin> set v" by blast
    show ?L
    proof (intro exI conjI)
      show "m = ''<img'' @ (a @ ''src=\"'' @ v @ [CHR 0x22])" using h(1) by simp
      show "a @ ''src=\"'' @ v @ [CHR 0x22] = a @ (''src=\"'' @ v @ [CHR 0x22])" by simp
      show "1 \<le> length a" using h(3) by (simp add: Suc_le_eq)
      show "CHR ''>'' \<notin> set a" by (rule h(4))
      show "''src=\"'' @ v @ [CHR 0x22] = ''src=\"'' @ (v @ [CHR 0x22])" by simp
      show "v @ [CHR 0x22] = v @ [CHR 0x22]" by simp
      show "g = [v]" by (rule h(2))
      show "1 \<le> length v" using h(5) by (simp add: Suc_le_eq)
      show "CHR 0x22 \<notin> set v" by (rule h(6))
    qed
  qed
  finally show ?thesis .
qed

lemma title_groups:
  assumes "rx_match title_rx s = Some (m, g, rest)"
  shows "\<exists>x. g = [x] \<and> x \<noteq> [] \<and> CHR ''<'' \<notin> set x"
  using rx_match_sound[OF assms] unfolding title_lang by blast

lemma link_groups:
  assumes "rx_match link_rx s = Some (m, g, rest)"
  shows "\<exists>x. g = [x] \<and> x \<noteq> [] \<and> CHR 0x22 \<notin> set x"
  using rx_match_sound[OF assms] unfolding link_lang by blast

lemma img_groups:
  assumes "rx_match img_rx s = Some (m, g, rest)"
  shows "\<exists>x. g = [x] \<and> x \<noteq> [] \<and> CHR 0x22 \<notin> set x"
  using rx_match_sound[OF assms] unfolding img_lang by blast

lemma group1_field:
  assumes "\<And>s m g rest. rx_match r s = Some (m, g, rest) \<Longrightarrow> \<exists>x. g = [x]"
  shows "group1_strip (re_search r block) = Inr (field_text r block)"
proof (cases "rx_find r block")
  case None
  then show ?thesis by (simp add: group1_strip_def re_search_def field_text_def captured_def)
next
  case (Some a)
  then obtain pre m g rest where f: "rx_find r block = Some (pre, m, g, rest)" by (cases a) auto
  from rx_find_sound[OF f] have "rx_match r (m @ rest) = Some (m, g, rest)" by simp
  from assms[OF this] obtain x where "g = [x]" by blast
  with f show ?thesis
    by (simp add: group1_strip_def re_search_def field_text_def captured_def group_def)
qed

lemma title_field: "group1_strip (re_search title_rx block) = Inr (field_text title_rx block)"
  by (rule group1_field) (use title_groups in blast)

lemma link_field: "group1_strip (re_search link_rx block) = Inr (field_text link_rx block)"
  by (rule group1_field) (use link_groups in blast)

lemma img_field: "group1_strip (re_search img_rx block) = Inr (field_text img_rx block)"
  by (rule group1_field) (use img_groups in blast)

lemma trimmed_field: "trimmed (field_text r block)"
  by (simp add: field_text_def trimmed_strip split: option.splits) (simp add: trimmed_def)

lemma parse_item_eq:
  "parse_item i block =
     Inr \<lparr>index = i + 1, title = field_text title_rx block, image_url = field_text img_rx block,
          link = (if field_text link_rx block = [] \<or> field_text link_rx block = ''#''
                  then ''(no link)'' else field_text link_rx block)\<rparr>"
  by (simp add: parse_item_def title_field link_field img_field)

lemma build_item_eq:
  "build_item i block =
     Inr (i + 1, field_text title_rx block, field_text img_rx block,
          (if field_text link_rx block = [] \<or> field_text link_rx block = ''#''
           then ''(no link)'' else field_text link_rx block))"
  by (simp add: build_item_def title_field link_field img_field strip_trimmed[OF trimmed_field])

lemma parse_loop_items:
  "\<exists>items. parse_loop i bs out = Inr (out @ items) \<and> length items = length bs \<and>
     (\<forall>k < length bs. parse_item (i + int k) (bs ! k) = Inr (items ! k))"
proof (induction bs arbitrary: i out)
  case Nil
  then show ?case by simp
next
  case (Cons b bs)
  obtain it where it: "parse_item i b = Inr it" by (simp add: parse_item_eq)
  from Cons.IH[of "i + 1" "out @ [it]"] obtain items where
    h: "parse_loop (i + 1) bs (out @ [it]) = Inr ((out @ [it]) @ items)" "length items = length bs"
       "\<forall>k < length bs. parse_item (i + 1 + int k) (bs ! k) = Inr (items ! k)" by blast
  have "\<forall>k < length (b # bs). parse_item (i + int k) ((b # bs) ! k) = Inr ((it # items) ! k)"
  proof (intro allI impI)
    fix k assume k: "k < length (b # bs)"
    show "parse_item (i + int k) ((b # bs) ! k) = Inr ((it # items) ! k)"
    proof (cases k)
      case 0
      with it show ?thesis by simp
    next
      case (Suc j)
      have e: "i + int (Suc j) = i + 1 + int j" by simp
      from k Suc have "j < length bs" by simp
      from h(3)[rule_format, OF this] have "parse_item (i + int (Suc j)) (bs ! j) = Inr (items ! j)"
        unfolding e .
      with Suc show ?thesis by simp
    qed
  qed
  with it h(1,2) show ?case by (intro exI[of _ "it # items"]) simp
qed

lemma build_loop_items:
  "\<exists>items. build_loop i bs out = Inr (out @ items) \<and> length items = length bs \<and>
     (\<forall>k < length bs. build_item (i + int k) (bs ! k) = Inr (items ! k))"
proof (induction bs arbitrary: i out)
  case Nil
  then show ?case by simp
next
  case (Cons b bs)
  obtain it where it: "build_item i b = Inr it" by (simp add: build_item_eq)
  from Cons.IH[of "i + 1" "out @ [it]"] obtain items where
    h: "build_loop (i + 1) bs (out @ [it]) = Inr ((out @ [it]) @ items)" "length items = length bs"
       "\<forall>k < length bs. build_item (i + 1 + int k) (bs ! k) = Inr (items ! k)" by blast
  have "\<forall>k < length (b # bs). build_item (i + int k) ((b # bs) ! k) = Inr ((it # items) ! k)"
  proof (intro allI impI)
    fix k assume k: "k < length (b # bs)"
    show "build_item (i + int k) ((b # bs) ! k) = Inr ((it # items) ! k)"
    proof (cases k)
      case 0
      with it show ?thesis by simp
    next
      case (Suc j)
      have e: "i + int (Suc j) = i + 1 + int j" by simp
      from k Suc have "j < length bs" by simp
      from h(3)[rule_format, OF this] have "build_item (i + int (Suc j)) (bs ! j) = Inr (items ! j)"
        unfolding e .
      with Suc show ?thesis by simp
    qed
  qed
  with it h(1,2) show ?case by (intro exI[of _ "it # items"]) simp
qed

lemma upto_from_1: "map (\<lambda>k. int k + 1) [0..<n] = [1..int n]"
proof (induction n)
  case 0
  then show ?case by simp
next
  case (Suc n)
  have "[1..int (Suc n)] = [1..int n] @ [int n + 1]"
    using upto_rec2[of 1 "int n + 1"] by (simp add: add.commute)
  with Suc show ?case by simp
qed

lemma length_blocks: "length (drop 1 (re_split html)) = count_markers html"
  by (simp add: length_re_split)

lemma index_of_items:
  assumes "length items = n" "\<forall>k < n. parse_item (int k) (bs ! k) = Inr (items ! k)"
  shows "map index items = [1..int n]"
proof -
  have "map index items = map (\<lambda>k. int k + 1) [0..<n]"
  proof (rule nth_equalityI)
    show "length (map index items) = length (map (\<lambda>k. int k + 1) [0..<n])" using assms(1) by simp
  next
    fix k assume "k < length (map index items)"
    then have k: "k < n" using assms(1) by simp
    from assms(2)[rule_format, OF k] have "index (items ! k) = int k + 1"
      unfolding parse_item_eq by (auto dest: sym)
    with k assms(1) show "map index items ! k = map (\<lambda>k. int k + 1) [0..<n] ! k" by simp
  qed
  then show ?thesis by (simp add: upto_from_1)
qed

lemma fst_of_items:
  assumes "length items = n" "\<forall>k < n. build_item (int k) (bs ! k) = Inr (items ! k)"
  shows "map fst items = [1..int n]"
proof -
  have "map fst items = map (\<lambda>k. int k + 1) [0..<n]"
  proof (rule nth_equalityI)
    show "length (map fst items) = length (map (\<lambda>k. int k + 1) [0..<n])" using assms(1) by simp
  next
    fix k assume "k < length (map fst items)"
    then have k: "k < n" using assms(1) by simp
    from assms(2)[rule_format, OF k] have "fst (items ! k) = int k + 1"
      unfolding build_item_eq by (auto dest: sym)
    with k assms(1) show "map fst items ! k = map (\<lambda>k. int k + 1) [0..<n] ! k" by simp
  qed
  then show ?thesis by (simp add: upto_from_1)
qed

lemma parse_extract_items:
  "\<exists>items. parse_extract html = Inr items \<and> length items = count_markers html \<and>
     (\<forall>k < length items. parse_item (int k) (drop 1 (re_split html) ! k) = Inr (items ! k))"
  using parse_loop_items[of 0 "drop 1 (re_split html)" "[]"]
  by (auto simp: parse_extract_def length_re_split)

lemma build_extract_items:
  "\<exists>items. build_extract html = Inr items \<and> length items = count_markers html \<and>
     (\<forall>k < length items. build_item (int k) (drop 1 (re_split html) ! k) = Inr (items ! k))"
  using build_loop_items[of 0 "drop 1 (re_split html)" "[]"]
  by (auto simp: build_extract_def length_re_split)

text \<open>
  C1. An input with \<open>N\<close> block-boundary markers yields exactly \<open>N\<close> items, in both scripts;
  their indices are \<open>1, ..., N\<close> and the item at position \<open>k\<close> is the one of the \<open>k\<close>-th
  block of the split. With no marker the result is the empty sequence.
\<close>

theorem extract_count_and_order:
  "(\<exists>items. parse_extract html = Inr items \<and> length items = count_markers html \<and>
      map index items = [1..int (count_markers html)] \<and>
      (\<forall>k < length items. parse_item (int k) (drop 1 (re_split html) ! k) = Inr (items ! k))) \<and>
   (\<exists>out. build_extract html = Inr out \<and> length out = count_markers html \<and>
      map fst out = [1..int (count_markers html)] \<and>
      (\<forall>k < length out. build_item (int k) (drop 1 (re_split html) ! k) = Inr (out ! k))) \<and>
   (count_markers html = 0 \<longrightarrow> parse_extract html = Inr [] \<and> build_extract html = Inr [])"
proof (intro conjI impI)
  from parse_extract_items[of html] obtain items where
    h: "parse_extract html = Inr items" "length items = count_markers html"
       "\<forall>k < length items. parse_item (int k) (drop 1 (re_split html) ! k) = Inr (items ! k)"
    by blast
  from index_of_items[OF h(2)] h(2,3) have "map index items = [1..int (count_markers html)]" by simp
  with h show "\<exists>items. parse_extract html = Inr items \<and> length items = count_markers html \<and>
      map index items = [1..int (count_markers html)] \<and>
      (\<forall>k < length items. parse_item (int k) (drop 1 (re_split html) ! k) = Inr (items ! k))"
    by blast
next
  from build_extract_items[of html] obtain out where
    h: "build_extract html = Inr out" "length out = count_markers html"
       "\<forall>k < length out. build_item (int k) (drop 1 (re_split html) ! k) = Inr (out ! k)"
    by blast
  from fst_of_items[OF h(2)] h(2,3) have "map fst out = [1..int (count_markers html)]" by simp
  with h show "\<exists>out. build_extract html = Inr out \<and> length out = count_markers html \<and>
      map fst out = [1..int (count_markers html)] \<and>
      (\<forall>k < length out. build_item (int k) (drop 1 (re_split html) ! k) = Inr (out ! k))"
    by blast
next
  assume "count_markers html = 0"
  with parse_extract_items[of html] show "parse_extract html = Inr []" by auto
next
  assume "count_markers html = 0"
  with build_extract_items[of html] show "build_extract html = Inr []" by auto
qed

theorem extract_count_and_order_witness:
  "count_markers html_two = 2 \<and>
   (\<exists>items. parse_extract html_two = Inr items \<and> length items = 2 \<and> map index items = [1, 2]) \<and>
   (\<exists>out. build_extract html_two = Inr out \<and> length out = 2 \<and> map fst out = [1, 2]) \<and>
   count_markers html_none = 0 \<and>
   parse_extract html_none = Inr [] \<and> build_extract html_none = Inr []"
proof -
  have c: "count_markers html_two = 2" by code_simp
  have z: "count_markers html_none = 0" by code_simp
  have u: "[1..2::int] = [1, 2]" by code_simp
  from extract_count_and_order[of html_two] obtain items where
    "parse_extract html_two = Inr items" "length items = count_markers html_two"
    "map index items = [1..int (count_markers html_two)]" by blast
  then have 1: "\<exists>items. parse_extract html_two = Inr items \<and> length items = 2 \<and> map index items = [1, 2]"
    by (simp add: c u)
  from extract_count_and_order[of html_two] obtain out where
    "build_extract html_two = Inr out" "length out = count_markers html_two"
    "map fst out = [1..int (count_markers html_two)]" by blast
  then have 2: "\<exists>out. build_extract html_two = Inr out \<and> length out = 2 \<and> map fst out = [1, 2]"
    by (simp add: c u)
  from extract_count_and_order[of html_none] z
  have 3: "parse_extract html_none = Inr [] \<and> build_extract html_none = Inr []" by blast
  from c z 1 2 3 show ?thesis by blast
qed

lemma marker_match: "is_marker m \<Longrightarrow> rx_match boundary_rx (m @ b) = Some (m, [], b)"
  unfolding boundary_match_iff is_marker_def by simp

lemma marker_lt: "is_marker m \<Longrightarrow> \<exists>m'. m = CHR ''<'' # m' \<and> CHR ''<'' \<notin> set m'"
  unfolding is_marker_def using marker_shape by blast

lemma boundary_match_extend:
  assumes "u \<noteq> []"
  shows "rx_match boundary_rx (u @ CHR ''<'' # w) =
         map_option (\<lambda>(m, g, r). (m, g, r @ CHR ''<'' # w)) (rx_match boundary_rx u)"
proof (cases "rx_match boundary_rx u")
  case (Some a)
  then obtain m g r where s: "rx_match boundary_rx u = Some (m, g, r)" by (cases a) auto
  then have "g = []" "u = m @ r" "is_marker m" unfolding boundary_match_iff is_marker_def by auto
  with marker_match[of m "r @ CHR ''<'' # w"] s show ?thesis by simp
next
  case None
  have "rx_match boundary_rx (u @ CHR ''<'' # w) = None"
  proof (rule ccontr)
    assume "rx_match boundary_rx (u @ CHR ''<'' # w) \<noteq> None"
    then obtain m g R where s: "rx_match boundary_rx (u @ CHR ''<'' # w) = Some (m, g, R)" by auto
    then have e: "u @ CHR ''<'' # w = m @ R" and mk: "is_marker m"
      unfolding boundary_match_iff is_marker_def by auto
    from marker_lt[OF mk] obtain m' where m': "m = CHR ''<'' # m'" "CHR ''<'' \<notin> set m'" by blast
    from assms obtain c u' where u: "u = c # u'" by (cases u) auto
    from e m'(1) u have "m' @ R = u' @ CHR ''<'' # w" "c = CHR ''<''" by auto
    from split_at_fresh[OF m'(2) this(1)] obtain v where "u' = m' @ v" by blast
    with u m'(1) \<open>c = CHR ''<''\<close> have "u = m @ v" by simp
    with marker_match[OF mk, of v] None show False by simp
  qed
  with None show ?thesis by simp
qed

lemma rx_find_extend:
  assumes "is_marker m"
  shows "rx_find boundary_rx (a @ m @ b) =
     (case rx_find boundary_rx a of
        Some (pre, M, g, R) \<Rightarrow> Some (pre, M, g, R @ m @ b)
      | None \<Rightarrow> Some (a, m, [], b))"
proof (induction a)
  case Nil
  from marker_lt[OF assms] obtain m' where m': "m = CHR ''<'' # m'" by blast
  from marker_match[OF assms, of b] show ?case by (simp add: boundary_Nil m')
next
  case (Cons c a)
  from marker_lt[OF assms] obtain m' where m': "m = CHR ''<'' # m'" by blast
  have e: "rx_match boundary_rx ((c # a) @ m @ b) =
           map_option (\<lambda>(M, g, r). (M, g, r @ m @ b)) (rx_match boundary_rx (c # a))"
    using boundary_match_extend[of "c # a" "m' @ b"] by (simp add: m')
  show ?case
  proof (cases "rx_match boundary_rx (c # a)")
    case (Some x)
    with e show ?thesis by (auto split: prod.splits)
  next
    case None
    with e have "rx_match boundary_rx (c # a @ m @ b) = None" by simp
    with None Cons.IH show ?thesis by (auto split: option.splits)
  qed
qed

lemma re_split_marker: "is_marker m \<Longrightarrow> re_split (a @ m @ b) = re_split a @ re_split b"
proof (induction a rule: re_split.induct)
  case (1 s)
  show ?case
  proof (cases "rx_find boundary_rx s")
    case None
    with rx_find_extend[OF "1.prems", of s b] show ?thesis
      by (subst re_split.simps, subst (2) re_split.simps) simp
  next
    case (Some x)
    then obtain pre M g R where f: "rx_find boundary_rx s = Some (pre, M, g, R)" by (cases x) auto
    from "1.IH"[OF f _ _ _ "1.prems"] have "re_split (R @ m @ b) = re_split R @ re_split b" by simp
    with f rx_find_extend[OF "1.prems", of s b] show ?thesis
      by (subst re_split.simps, subst (2) re_split.simps) simp
  qed
qed

lemma re_split_nonempty: "re_split s \<noteq> []"
  using length_re_split[of s] by auto

lemma blocks_marker:
  "is_marker m \<Longrightarrow> drop 1 (re_split (a @ m @ b)) = drop 1 (re_split a) @ re_split b"
  using re_split_nonempty[of a] by (cases "re_split a") (auto simp: re_split_marker)

lemma parse_loop_append:
  "parse_loop i (bs @ cs) out =
     (case parse_loop i bs out of Inl e \<Rightarrow> Inl e
      | Inr out' \<Rightarrow> parse_loop (i + int (length bs)) cs out')"
proof (induction bs arbitrary: i out)
  case Nil
  then show ?case by simp
next
  case (Cons b bs)
  show ?case
  proof (cases "parse_item i b")
    case (Inl e)
    then show ?thesis by simp
  next
    case (Inr it)
    have e: "i + int (length (b # bs)) = i + 1 + int (length bs)" by simp
    show ?thesis unfolding e using Inr Cons.IH[of "i + 1" "out @ [it]"] by simp
  qed
qed

lemma build_loop_append:
  "build_loop i (bs @ cs) out =
     (case build_loop i bs out of Inl e \<Rightarrow> Inl e
      | Inr out' \<Rightarrow> build_loop (i + int (length bs)) cs out')"
proof (induction bs arbitrary: i out)
  case Nil
  then show ?case by simp
next
  case (Cons b bs)
  show ?case
  proof (cases "build_item i b")
    case (Inl e)
    then show ?thesis by simp
  next
    case (Inr it)
    have e: "i + int (length (b # bs)) = i + 1 + int (length bs)" by simp
    show ?thesis unfolding e using Inr Cons.IH[of "i + 1" "out @ [it]"] by simp
  qed
qed

lemma parse_extract_marker:
  assumes "is_marker m"
  shows "\<exists>xs ys. parse_extract a = Inr xs \<and> parse_extract (a @ m @ b) = Inr (xs @ ys)"
proof -
  from parse_loop_items[of 0 "drop 1 (re_split a)" "[]"] obtain xs where
    xs: "parse_loop 0 (drop 1 (re_split a)) [] = Inr xs" by auto
  from parse_loop_items[of "0 + int (length (drop 1 (re_split a)))" "re_split b" xs] obtain ys where
    ys: "parse_loop (0 + int (length (drop 1 (re_split a)))) (re_split b) xs = Inr (xs @ ys)" by blast
  have "parse_extract (a @ m @ b) = Inr (xs @ ys)"
    unfolding parse_extract_def blocks_marker[OF assms] parse_loop_append xs using ys by simp
  with xs show ?thesis by (auto simp: parse_extract_def)
qed

lemma build_extract_marker:
  assumes "is_marker m"
  shows "\<exists>xs ys. build_extract a = Inr xs \<and> build_extract (a @ m @ b) = Inr (xs @ ys)"
proof -
  from build_loop_items[of 0 "drop 1 (re_split a)" "[]"] obtain xs where
    xs: "build_loop 0 (drop 1 (re_split a)) [] = Inr xs" by auto
  from build_loop_items[of "0 + int (length (drop 1 (re_split a)))" "re_split b" xs] obtain ys where
    ys: "build_loop (0 + int (length (drop 1 (re_split a)))) (re_split b) xs = Inr (xs @ ys)" by blast
  have "build_extract (a @ m @ b) = Inr (xs @ ys)"
    unfolding build_extract_def blocks_marker[OF assms] build_loop_append xs using ys by simp
  with xs show ?thesis by (auto simp: build_extract_def)
qed
text \<open>
  C3. The blocks are disjoint pieces of the input: when a block-boundary marker follows the
  text \<open>a\<close>, the blocks of \<open>a\<close> stay as they are and whatever comes after the marker (the
  text of the next block, with any title, anchor or image marker in it) only adds blocks.
  So the items of the blocks of \<open>a\<close> are the same whatever follows, in both scripts.
\<close>

theorem block_locality:
  assumes "ds \<noteq> []" and "list_all is_digit ds"
  shows "drop 1 (re_split (a @ boundary_lit @ ds @ [CHR 0x22] @ b)) = drop 1 (re_split a) @ re_split b \<and>
         (\<exists>xs ys. parse_extract a = Inr xs \<and>
                   parse_extract (a @ boundary_lit @ ds @ [CHR 0x22] @ b) = Inr (xs @ ys)) \<and>
         (\<exists>xs ys. build_extract a = Inr xs \<and>
                   build_extract (a @ boundary_lit @ ds @ [CHR 0x22] @ b) = Inr (xs @ ys))"
proof -
  from assms have m: "is_marker (boundary_lit @ ds @ [CHR 0x22])" unfolding is_marker_def by blast
  from blocks_marker[OF m, of a b] parse_extract_marker[OF m, of a b] build_extract_marker[OF m, of a b]
  show ?thesis by simp
qed

theorem block_locality_witness:
  "''2'' \<noteq> [] \<and> list_all is_digit ''2'' \<and>
   parse_extract block_one = Inr [\<lparr>index = 1, title = [], image_url = [], link = ''(no link)''\<rparr>] \<and>
   parse_extract (block_one @ boundary_lit @ ''2'' @ [CHR 0x22] @ body_two) =
     Inr [\<lparr>index = 1, title = [], image_url = [], link = ''(no link)''\<rparr>,
          \<lparr>index = 2, title = ''Two'', image_url = ''i.png'', link = ''u''\<rparr>] \<and>
   (\<exists>xs ys. build_extract block_one = Inr xs \<and>
             build_extract (block_one @ boundary_lit @ ''2'' @ [CHR 0x22] @ body_two) = Inr (xs @ ys))"
proof -
  have h1: "''2'' \<noteq> []" by simp
  have h2: "list_all is_digit ''2''" by code_simp
  have e1: "parse_extract block_one = Inr [\<lparr>index = 1, title = [], image_url = [], link = ''(no link)''\<rparr>]"
    by code_simp
  from block_locality[OF h1 h2, of block_one body_two] obtain ys where
    "parse_extract (block_one @ boundary_lit @ ''2'' @ [CHR 0x22] @ body_two) =
       Inr ([\<lparr>index = 1, title = [], image_url = [], link = ''(no link)''\<rparr>] @ ys)"
    unfolding e1 by blast
  moreover have "parse_extract (block_one @ boundary_lit @ ''2'' @ [CHR 0x22] @ body_two) =
     Inr [\<lparr>index = 1, title = [], image_url = [], link = ''(no link)''\<rparr>,
          \<lparr>index = 2, title = ''Two'', image_url = ''i.png'', link = ''u''\<rparr>]"
    by code_simp
  moreover from block_locality[OF h1 h2, of block_one body_two]
  have "\<exists>xs ys. build_extract block_one = Inr xs \<and>
             build_extract (block_one @ boundary_lit @ ''2'' @ [CHR 0x22] @ body_two) = Inr (xs @ ys)"
    by blast
  ultimately show ?thesis using h1 h2 e1 by blast
qed

lemma captured_Some:
  assumes "captured r block = Some v"
  shows "\<exists>m g rest. rx_match r (m @ rest) = Some (m, v # g, rest)"
proof -
  from assms obtain pre m g rest where f: "rx_find r block = Some (pre, m, v # g, rest)"
    by (auto simp: captured_def re_search_def split: option.splits list.splits)
  from rx_find_sound[OF f] show ?thesis by blast
qed

lemma captured_title: "captured title_rx block = Some v \<Longrightarrow> v \<noteq> [] \<and> CHR ''<'' \<notin> set v"
  using captured_Some[of title_rx block v] title_groups by blast

lemma captured_link: "captured link_rx block = Some v \<Longrightarrow> v \<noteq> [] \<and> CHR 0x22 \<notin> set v"
  using captured_Some[of link_rx block v] link_groups by blast

lemma captured_img: "captured img_rx block = Some v \<Longrightarrow> v \<noteq> [] \<and> CHR 0x22 \<notin> set v"
  using captured_Some[of img_rx block v] img_groups by blast

lemma captured_no_match:
  "(\<forall>j \<le> length block. rx_match r (drop j block) = None) \<Longrightarrow> captured r block = None"
  by (simp add: captured_def re_search_def rx_find_None[symmetric])

lemma field_title_chars: "CHR ''<'' \<notin> set (field_text title_rx block)"
  using captured_title[of block] set_strip by (fastforce simp: field_text_def split: option.splits)

lemma field_link_chars: "CHR 0x22 \<notin> set (field_text link_rx block)"
  using captured_link[of block] set_strip by (fastforce simp: field_text_def split: option.splits)

lemma field_img_chars: "CHR 0x22 \<notin> set (field_text img_rx block)"
  using captured_img[of block] set_strip by (fastforce simp: field_text_def split: option.splits)

lemma trimmed_placeholder: "trimmed ''(no link)''"
  by (simp add: trimmed_def is_space_def)

lemma parse_item_clean:
  "\<exists>it. parse_item i block = Inr it \<and> clean_item (title it) (image_url it) (link it)"
  by (simp add: parse_item_eq clean_item_def field_title_chars field_img_chars field_link_chars
      trimmed_field trimmed_placeholder)

lemma build_item_clean:
  "\<exists>i' t im l. build_item i block = Inr (i', t, im, l) \<and> clean_item t im l"
  by (simp add: build_item_eq clean_item_def field_title_chars field_img_chars field_link_chars
      trimmed_field trimmed_placeholder)

text \<open>
  C10. Every emitted item, in both scripts: no \<open><\<close> in the title, no double quote in the
  image or in a link other than the placeholder, no leading or trailing whitespace in any
  of the three fields, and a link that is never empty.
\<close>

theorem emitted_items_clean:
  "(\<exists>items. parse_extract html = Inr items \<and>
      (\<forall>it \<in> set items. clean_item (title it) (image_url it) (link it))) \<and>
   (\<exists>out. build_extract html = Inr out \<and>
      (\<forall>(i, t, im, l) \<in> set out. clean_item t im l))"
proof
  from parse_extract_items[of html] obtain items where
    h: "parse_extract html = Inr items"
       "\<forall>k < length items. parse_item (int k) (drop 1 (re_split html) ! k) = Inr (items ! k)"
    by blast
  have "\<forall>it \<in> set items. clean_item (title it) (image_url it) (link it)"
  proof
    fix it assume "it \<in> set items"
    then obtain k where k: "k < length items" "it = items ! k" by (auto simp: in_set_conv_nth)
    from h(2)[rule_format, OF k(1)] parse_item_clean[of "int k" "drop 1 (re_split html) ! k"] k(2)
    show "clean_item (title it) (image_url it) (link it)" by auto
  qed
  with h(1) show "\<exists>items. parse_extract html = Inr items \<and>
      (\<forall>it \<in> set items. clean_item (title it) (image_url it) (link it))" by blast
next
  from build_extract_items[of html] obtain out where
    h: "build_extract html = Inr out"
       "\<forall>k < length out. build_item (int k) (drop 1 (re_split html) ! k) = Inr (out ! k)"
    by blast
  have "\<forall>(i, t, im, l) \<in> set out. clean_item t im l"
  proof
    fix x assume "x \<in> set out"
    then obtain k where k: "k < length out" "x = out ! k" by (auto simp: in_set_conv_nth)
    from h(2)[rule_format, OF k(1)] build_item_clean[of "int k" "drop 1 (re_split html) ! k"] k(2)
    show "case x of (i, t, im, l) \<Rightarrow> clean_item t im l" by auto
  qed
  with h(1) show "\<exists>out. build_extract html = Inr out \<and>
      (\<forall>(i, t, im, l) \<in> set out. clean_item t im l)" by blast
qed

theorem emitted_items_clean_witness:
  "parse_extract html_messy =
     Inr [\<lparr>index = 1, title = ''Alpha'', image_url = ''a.png'', link = ''http://x/a''\<rparr>] \<and>
   clean_item ''Alpha'' ''a.png'' ''http://x/a'' \<and>
   build_extract html_messy = Inr [(1, ''Alpha'', ''a.png'', ''http://x/a'')]"
proof -
  have e: "parse_extract html_messy =
     Inr [\<lparr>index = 1, title = ''Alpha'', image_url = ''a.png'', link = ''http://x/a''\<rparr>]"
    by code_simp
  have b: "build_extract html_messy = Inr [(1, ''Alpha'', ''a.png'', ''http://x/a'')]"
    by code_simp
  from emitted_items_clean[of html_messy] have "clean_item ''Alpha'' ''a.png'' ''http://x/a''"
    unfolding e by simp
  with e b show ?thesis by blast
qed

text \<open>
  C4. The extraction of either script returns a result for every input and never raises:
  \<open>group(1)\<close> is only called on a match, and each pattern has its group. With no
  block-boundary marker the result is the empty sequence; a block in which no title
  (image) marker occurs gives an item with the empty title (image).
\<close>

theorem extraction_never_raises:
  "(\<exists>items. parse_extract html = Inr items) \<and>
   (\<exists>out. build_extract html = Inr out) \<and>
   (count_markers html = 0 \<longrightarrow> parse_extract html = Inr [] \<and> build_extract html = Inr []) \<and>
   (\<exists>it. parse_item i block = Inr it \<and>
      ((\<forall>j \<le> length block. \<not> title_at (drop j block)) \<longrightarrow> title it = []) \<and>
      ((\<forall>j \<le> length block. \<not> image_at (drop j block)) \<longrightarrow> image_url it = [])) \<and>
   (\<exists>i' t im l. build_item i block = Inr (i', t, im, l) \<and>
      ((\<forall>j \<le> length block. \<not> title_at (drop j block)) \<longrightarrow> t = []) \<and>
      ((\<forall>j \<le> length block. \<not> image_at (drop j block)) \<longrightarrow> im = []))"
proof -
  have t: "(\<forall>j \<le> length block. \<not> title_at (drop j block)) \<longrightarrow> field_text title_rx block = []"
  proof
    assume "\<forall>j \<le> length block. \<not> title_at (drop j block)"
    then have "\<forall>j \<le> length block. rx_match title_rx (drop j block) = None"
      unfolding title_at_def by blast
    from captured_no_match[OF this] show "field_text title_rx block = []"
      by (simp add: field_text_def)
  qed
  have m: "(\<forall>j \<le> length block. \<not> image_at (drop j block)) \<longrightarrow> field_text img_rx block = []"
  proof
    assume "\<forall>j \<le> length block. \<not> image_at (drop j block)"
    then have "\<forall>j \<le> length block. rx_match img_rx (drop j block) = None"
      unfolding image_at_def by blast
    from captured_no_match[OF this] show "field_text img_rx block = []"
      by (simp add: field_text_def)
  qed
  have z: "count_markers html = 0 \<longrightarrow> parse_extract html = Inr [] \<and> build_extract html = Inr []"
    using parse_extract_items[of html] build_extract_items[of html] by auto
  from parse_extract_items[of html] have p: "\<exists>items. parse_extract html = Inr items" by blast
  from build_extract_items[of html] have b: "\<exists>out. build_extract html = Inr out" by blast
  from t m z p b show ?thesis by (simp add: parse_item_eq build_item_eq)
qed

theorem extraction_never_raises_witness:
  "count_markers html_none = 0 \<and> parse_extract html_none = Inr [] \<and> build_extract html_none = Inr [] \<and>
   rx_find title_rx block_nolink = None \<and> rx_find img_rx block_nolink = None \<and>
   parse_item 0 block_nolink = Inr \<lparr>index = 1, title = [], image_url = [], link = ''(no link)''\<rparr>"
proof -
  have z: "count_markers html_none = 0" by code_simp
  have ft: "rx_find title_rx block_nolink = None" by code_simp
  have fi: "rx_find img_rx block_nolink = None" by code_simp
  have e: "parse_item 0 block_nolink = Inr \<lparr>index = 1, title = [], image_url = [], link = ''(no link)''\<rparr>"
    by code_simp
  from extraction_never_raises[of html_none 0 block_nolink] z
  have "parse_extract html_none = Inr [] \<and> build_extract html_none = Inr []" by blast
  with z ft fi e show ?thesis by blast
qed

lemma field_link_cases:
  "field_text link_rx block =
     (case captured link_rx block of None \<Rightarrow> [] | Some v \<Rightarrow> strip v)"
  by (simp add: field_text_def)

lemma link_value:
  "(if field_text link_rx block = [] \<or> field_text link_rx block = ''#''
    then ''(no link)'' else field_text link_rx block) =
   (case captured link_rx block of
      None \<Rightarrow> ''(no link)''
    | Some v \<Rightarrow> if strip v = [] \<or> strip v = ''#'' then ''(no link)'' else strip v)"
  by (simp add: field_text_def split: option.splits)

text \<open>
  C2. In both scripts the link is the placeholder \<open>(no link)\<close> exactly in the cases where no
  anchor value is captured or the captured value, trimmed, is empty or \<open>#\<close>; every other
  captured value appears in the item trimmed and otherwise unchanged. (A value that passes
  through unchanged can be any text, the text of the placeholder included, which the last
  part of the first conjunct records.)
\<close>

theorem link_normalization:
  "(\<exists>it. parse_item i block = Inr it \<and>
      link it = (case captured link_rx block of
                   None \<Rightarrow> ''(no link)''
                 | Some v \<Rightarrow> if strip v = [] \<or> strip v = ''#'' then ''(no link)'' else strip v) \<and>
      (link it = ''(no link)'' \<longleftrightarrow>
         captured link_rx block = None \<or>
         (\<exists>v. captured link_rx block = Some v \<and>
              (strip v = [] \<or> strip v = ''#'' \<or> strip v = ''(no link)'')))) \<and>
   (\<exists>i' t im l. build_item i block = Inr (i', t, im, l) \<and>
      l = (case captured link_rx block of
             None \<Rightarrow> ''(no link)''
           | Some v \<Rightarrow> if strip v = [] \<or> strip v = ''#'' then ''(no link)'' else strip v))"
  unfolding parse_item_eq build_item_eq link_value
  by (cases "captured link_rx block") auto

theorem link_normalization_witness:
  "captured link_rx block_hash = Some '' # '' \<and>
   parse_item 0 block_hash = Inr \<lparr>index = 1, title = [], image_url = [], link = ''(no link)''\<rparr> \<and>
   captured link_rx block_plain = Some '' http://x/a '' \<and>
   parse_item 0 block_plain = Inr \<lparr>index = 1, title = [], image_url = [], link = ''http://x/a''\<rparr> \<and>
   build_item 0 block_plain = Inr (1, [], [], ''http://x/a'')"
proof -
  have c1: "captured link_rx block_hash = Some '' # ''" by code_simp
  have c2: "captured link_rx block_plain = Some '' http://x/a ''" by code_simp
  have s1: "strip '' # '' = ''#''" by code_simp
  have s2: "strip '' http://x/a '' = ''http://x/a''" by code_simp
  have e1: "parse_item 0 block_hash = Inr \<lparr>index = 1, title = [], image_url = [], link = ''(no link)''\<rparr>"
    by code_simp
  have e2: "parse_item 0 block_plain = Inr \<lparr>index = 1, title = [], image_url = [], link = ''http://x/a''\<rparr>"
    by code_simp
  have b2: "build_item 0 block_plain = Inr (1, [], [], ''http://x/a'')" by code_simp
  from link_normalization[of 0 block_plain]
  have "\<exists>it. parse_item 0 block_plain = Inr it \<and> link it = ''http://x/a''"
    by (simp add: c2 s2) blast
  with c1 c2 e1 e2 b2 show ?thesis by blast
qed

lemma items_agree: "parse_item i block = Inr it \<Longrightarrow> build_item i block = Inr (as_tuple it)"
  unfolding parse_item_eq build_item_eq by (auto simp: as_tuple_def)

lemma loops_agree:
  "parse_loop i bs out = Inr xs \<Longrightarrow> build_loop i bs (map as_tuple out) = Inr (map as_tuple xs)"
proof (induction bs arbitrary: i out)
  case Nil
  then show ?case by simp
next
  case (Cons b bs)
  obtain it where it: "parse_item i b = Inr it" by (simp add: parse_item_eq)
  with Cons.prems have "parse_loop (i + 1) bs (out @ [it]) = Inr xs" by simp
  from Cons.IH[OF this] items_agree[OF it] show ?case by simp
qed

lemma extracts_agree:
  "\<exists>xs. parse_extract html = Inr xs \<and> build_extract html = Inr (map as_tuple xs)"
proof -
  from parse_extract_items[of html] obtain xs where x: "parse_extract html = Inr xs" by blast
  then have "parse_loop 0 (drop 1 (re_split html)) [] = Inr xs" by (simp add: parse_extract_def)
  from loops_agree[OF this] have "build_extract html = Inr (map as_tuple xs)"
    by (simp add: build_extract_def)
  with x show ?thesis by blast
qed

text \<open>
  C8, as the code has it. The two scripts normalise the link in the same way: on every
  input they produce the same sequence of items, with the same index, title, image and link
  at every position. The second \<open>strip()\<close> of \<open>build_portfolio_list.py\<close> changes nothing,
  and the empty text that \<open>parse_portfolio_html.py\<close> stores first is replaced by the
  placeholder when the item is built.
\<close>

theorem variants_agree:
  "\<exists>xs. parse_extract html = Inr xs \<and>
        build_extract html = Inr (map (\<lambda>it. (index it, title it, image_url it, link it)) xs)"
  using extracts_agree[of html] unfolding as_tuple_def .

theorem variants_agree_witness:
  "parse_extract html_messy =
     Inr [\<lparr>index = 1, title = ''Alpha'', image_url = ''a.png'', link = ''http://x/a''\<rparr>] \<and>
   build_extract html_messy = Inr [(1, ''Alpha'', ''a.png'', ''http://x/a'')]"
proof -
  have e: "parse_extract html_messy =
     Inr [\<lparr>index = 1, title = ''Alpha'', image_url = ''a.png'', link = ''http://x/a''\<rparr>]"
    by code_simp
  from variants_agree[of html_messy] have "build_extract html_messy = Inr [(1, ''Alpha'', ''a.png'', ''http://x/a'')]"
    unfolding e by simp
  with e show ?thesis by blast
qed

text \<open>
  C8, as the specification states it, fails: no input that passes the guard of
  \<open>build_portfolio_list.py\<close> gets different links from the two scripts at any position.
\<close>

theorem variants_differ_counterexample:
  "\<not> (\<exists>html xs ys k. strip html \<noteq> [] \<and> py_in sentinel html \<and>
        parse_extract html = Inr xs \<and> build_extract html = Inr ys \<and>
        k < length xs \<and> k < length ys \<and> link (xs ! k) \<noteq> snd (snd (snd (ys ! k))))"
proof
  assume "\<exists>html xs ys k. strip html \<noteq> [] \<and> py_in sentinel html \<and>
        parse_extract html = Inr xs \<and> build_extract html = Inr ys \<and>
        k < length xs \<and> k < length ys \<and> link (xs ! k) \<noteq> snd (snd (snd (ys ! k)))"
  then obtain html xs ys k where h: "parse_extract html = Inr xs" "build_extract html = Inr ys"
    "k < length xs" "link (xs ! k) \<noteq> snd (snd (snd (ys ! k)))" by blast
  from extracts_agree[of html] h(1,2) have "ys = map as_tuple xs" by auto
  with h(3,4) show False by (simp add: as_tuple_def)
qed

lemma title_match_decomp:
  assumes "ds \<noteq> []" "list_all is_digit ds" "CHR ''>'' \<notin> set a" "x \<noteq> []" "CHR ''<'' \<notin> set x"
  shows "rx_match title_rx (title_lit @ ds @ [CHR 0x22] @ a @ ''>'' @ x @ ''</span>'' @ rest) =
         Some (title_lit @ ds @ [CHR 0x22] @ a @ ''>'' @ x @ ''</span>'', [x], rest)"
proof -
  have d: "\<And>c. is_digit c \<Longrightarrow> \<not> (c = CHR 0x22)" using not_digit_dq by auto
  note r1 = rx_match_Rep_Chr[where p = is_digit and q = "\<lambda>c. c = CHR 0x22", OF d]
  have r2: "\<And>n r s. rx_match (Rep n (\<lambda>c. c \<noteq> CHR ''>'') # Chr (\<lambda>c. c = CHR ''>'') # r) s =
     (if n \<le> length (takeWhile (\<lambda>c. c \<noteq> CHR ''>'') s)
      then (case rx_match (Chr (\<lambda>c. c = CHR ''>'') # r) (dropWhile (\<lambda>c. c \<noteq> CHR ''>'') s) of
              None \<Rightarrow> None
            | Some (m, g, rest) \<Rightarrow> Some (takeWhile (\<lambda>c. c \<noteq> CHR ''>'') s @ m, g, rest))
      else None)"
    by (rule rx_match_Rep_Chr) simp
  have r3: "\<And>n r s. rx_match (Cap n (\<lambda>c. c \<noteq> CHR ''<'') # Chr (\<lambda>c. c = CHR ''<'') # r) s =
     (if n \<le> length (takeWhile (\<lambda>c. c \<noteq> CHR ''<'') s)
      then (case rx_match (Chr (\<lambda>c. c = CHR ''<'') # r) (dropWhile (\<lambda>c. c \<noteq> CHR ''<'') s) of
              None \<Rightarrow> None
            | Some (m, g, rest) \<Rightarrow>
                Some (takeWhile (\<lambda>c. c \<noteq> CHR ''<'') s @ m, takeWhile (\<lambda>c. c \<noteq> CHR ''<'') s # g, rest))
      else None)"
    by (rule rx_match_Cap_Chr) simp
  have a: "list_all (\<lambda>c. c \<noteq> CHR ''>'') a" using assms(3) by (auto simp: list_all_iff)
  have x: "list_all (\<lambda>c. c \<noteq> CHR ''<'') x" using assms(5) by (auto simp: list_all_iff)
  have t1: "\<And>tl. takeWhile is_digit (ds @ CHR 0x22 # tl) = ds"
    by (rule takeWhile_stop[OF assms(2) not_digit_dq])
  have t2: "\<And>tl. dropWhile is_digit (ds @ CHR 0x22 # tl) = CHR 0x22 # tl"
    by (rule dropWhile_stop[OF assms(2) not_digit_dq])
  have t3: "\<And>tl. takeWhile (\<lambda>c. c \<noteq> CHR ''>'') (a @ CHR ''>'' # tl) = a"
    by (rule takeWhile_stop[OF a]) simp
  have t4: "\<And>tl. dropWhile (\<lambda>c. c \<noteq> CHR ''>'') (a @ CHR ''>'' # tl) = CHR ''>'' # tl"
    by (rule dropWhile_stop[OF a]) simp
  have t5: "\<And>tl. takeWhile (\<lambda>c. c \<noteq> CHR ''<'') (x @ CHR ''<'' # tl) = x"
    by (rule takeWhile_stop[OF x]) simp
  have t6: "\<And>tl. dropWhile (\<lambda>c. c \<noteq> CHR ''<'') (x @ CHR ''<'' # tl) = CHR ''<'' # tl"
    by (rule dropWhile_stop[OF x]) simp
  have e: "rx_match (Cap 1 (\<lambda>c. c \<noteq> CHR ''<'') # lit ''</span>'') (x @ ''</span>'' @ rest) =
           Some (x @ ''</span>'', [x], rest)"
    using assms(4) by (simp add: lit_def r3 t5 t6 Suc_le_eq del: rx_match.simps(3,4))
  have f: "rx_match (Rep 0 (\<lambda>c. c \<noteq> CHR ''>'') # Chr (\<lambda>c. c = CHR ''>'') # Cap 1 (\<lambda>c. c \<noteq> CHR ''<'') # lit ''</span>'')
             (a @ CHR ''>'' # x @ ''</span>'' @ rest) = Some (a @ CHR ''>'' # x @ ''</span>'', [x], rest)"
    using e by (simp add: r2 t3 t4 del: rx_match.simps(3,4))
  have g: "rx_match (Rep 1 is_digit # Chr (\<lambda>c. c = CHR 0x22) # Rep 0 (\<lambda>c. c \<noteq> CHR ''>'') #
                     Chr (\<lambda>c. c = CHR ''>'') # Cap 1 (\<lambda>c. c \<noteq> CHR ''<'') # lit ''</span>'')
             (ds @ CHR 0x22 # a @ CHR ''>'' # x @ ''</span>'' @ rest) =
           Some (ds @ CHR 0x22 # a @ CHR ''>'' # x @ ''</span>'', [x], rest)"
    using f assms(1) by (simp add: r1 t1 t2 Suc_le_eq del: rx_match.simps(3,4))
  show ?thesis
    unfolding title_rx_def using g by (simp add: rx_match_lit del: rx_match.simps)
qed

lemma title_at_iff:
  "title_at s \<longleftrightarrow>
     (\<exists>ds a x rest. s = title_lit @ ds @ [CHR 0x22] @ a @ ''>'' @ x @ ''</span>'' @ rest \<and>
        ds \<noteq> [] \<and> list_all is_digit ds \<and> CHR ''>'' \<notin> set a \<and> x \<noteq> [] \<and> CHR ''<'' \<notin> set x)"
proof
  assume "title_at s"
  then obtain m g rest ds a x where "s = m @ rest"
    "m = title_lit @ ds @ [CHR 0x22] @ a @ ''>'' @ x @ ''</span>''"
    "ds \<noteq> []" "list_all is_digit ds" "CHR ''>'' \<notin> set a" "x \<noteq> []" "CHR ''<'' \<notin> set x"
    unfolding title_at_def rx_match_occurs title_lang by blast
  then show "\<exists>ds a x rest. s = title_lit @ ds @ [CHR 0x22] @ a @ ''>'' @ x @ ''</span>'' @ rest \<and>
        ds \<noteq> [] \<and> list_all is_digit ds \<and> CHR ''>'' \<notin> set a \<and> x \<noteq> [] \<and> CHR ''<'' \<notin> set x"
    by (intro exI[of _ ds] exI[of _ a] exI[of _ x] exI[of _ rest]) simp
next
  assume "\<exists>ds a x rest. s = title_lit @ ds @ [CHR 0x22] @ a @ ''>'' @ x @ ''</span>'' @ rest \<and>
        ds \<noteq> [] \<and> list_all is_digit ds \<and> CHR ''>'' \<notin> set a \<and> x \<noteq> [] \<and> CHR ''<'' \<notin> set x"
  then obtain ds a x rest where
    s: "s = title_lit @ ds @ [CHR 0x22] @ a @ ''>'' @ x @ ''</span>'' @ rest"
    and h: "ds \<noteq> []" "list_all is_digit ds" "CHR ''>'' \<notin> set a" "x \<noteq> []" "CHR ''<'' \<notin> set x"
    by blast
  from title_match_decomp[OF h, of rest] s show "title_at s" by (simp add: title_at_def)
qed

lemma field_first_match:
  assumes "\<forall>j < length pre. rx_match r (drop j (pre @ t)) = None"
    and "rx_match r t = Some (m, [x], rest)"
  shows "field_text r (pre @ t) = strip x"
  using rx_find_first[OF assms] by (simp add: field_text_def captured_def re_search_def)









lemma not_space_h: "\<not> is_space (CHR ''h'')"
  by (simp add: is_space_def)

lemma link_match_decomp:
  assumes "ws \<noteq> []" "list_all is_space ws" "v \<noteq> []" "CHR 0x22 \<notin> set v"
  shows "rx_match link_rx (''<a'' @ ws @ ''href=\"'' @ v @ [CHR 0x22] @ rest) =
         Some (''<a'' @ ws @ ''href=\"'' @ v @ [CHR 0x22], [v], rest)"
proof -
  have d: "\<And>c. is_space c \<Longrightarrow> \<not> (c = CHR ''h'')" using not_space_h by auto
  note r1 = rx_match_Rep_Chr[where p = is_space and q = "\<lambda>c. c = CHR ''h''", OF d]
  have r2: "\<And>n r s. rx_match (Cap n (\<lambda>c. c \<noteq> CHR 0x22) # Chr (\<lambda>c. c = CHR 0x22) # r) s =
     (if n \<le> length (takeWhile (\<lambda>c. c \<noteq> CHR 0x22) s)
      then (case rx_match (Chr (\<lambda>c. c = CHR 0x22) # r) (dropWhile (\<lambda>c. c \<noteq> CHR 0x22) s) of
              None \<Rightarrow> None
            | Some (m, g, rest) \<Rightarrow>
                Some (takeWhile (\<lambda>c. c \<noteq> CHR 0x22) s @ m, takeWhile (\<lambda>c. c \<noteq> CHR 0x22) s # g, rest))
      else None)"
    by (rule rx_match_Cap_Chr) simp
  have v: "list_all (\<lambda>c. c \<noteq> CHR 0x22) v" using assms(4) by (auto simp: list_all_iff)
  have t1: "\<And>tl. takeWhile is_space (ws @ CHR ''h'' # tl) = ws"
    by (rule takeWhile_stop[OF assms(2) not_space_h])
  have t2: "\<And>tl. dropWhile is_space (ws @ CHR ''h'' # tl) = CHR ''h'' # tl"
    by (rule dropWhile_stop[OF assms(2) not_space_h])
  have t3: "\<And>tl. takeWhile (\<lambda>c. c \<noteq> CHR 0x22) (v @ CHR 0x22 # tl) = v"
    by (rule takeWhile_stop[OF v]) simp
  have t4: "\<And>tl. dropWhile (\<lambda>c. c \<noteq> CHR 0x22) (v @ CHR 0x22 # tl) = CHR 0x22 # tl"
    by (rule dropWhile_stop[OF v]) simp
  have e: "rx_match [Cap 1 (\<lambda>c. c \<noteq> CHR 0x22), Chr (\<lambda>c. c = CHR 0x22)] (v @ CHR 0x22 # rest) =
           Some (v @ [CHR 0x22], [v], rest)"
    using assms(3) by (simp add: r2 t3 t4 Suc_le_eq del: rx_match.simps(3,4))
  have f: "rx_match (Rep 1 is_space # lit ''href=\"'' @ [Cap 1 (\<lambda>c. c \<noteq> CHR 0x22), Chr (\<lambda>c. c = CHR 0x22)])
             (ws @ ''href=\"'' @ v @ CHR 0x22 # rest) = Some (ws @ ''href=\"'' @ v @ [CHR 0x22], [v], rest)"
    using e assms(1) by (simp add: lit_def r1 t1 t2 Suc_le_eq del: rx_match.simps(3,4))
  show ?thesis
    unfolding link_rx_def using f by (simp add: rx_match_lit del: rx_match.simps)
qed

lemma no_anchor_before:
  assumes "\<forall>j < length pre. \<not> anchor_at (drop j (pre @ t))"
  shows "\<forall>j < length pre. rx_match link_rx (drop j (pre @ t)) = None"
  using assms unfolding anchor_at_def by blast

lemma anchor_first_marker:
  assumes "ws \<noteq> []" "list_all is_space ws" "v \<noteq> []" "CHR 0x22 \<notin> set v"
    and "\<forall>j < length pre. \<not> anchor_at (drop j (pre @ ''<a'' @ ws @ ''href=\"'' @ v @ [CHR 0x22] @ rest))"
  shows "field_text link_rx (pre @ ''<a'' @ ws @ ''href=\"'' @ v @ [CHR 0x22] @ rest) = strip v"
  by (rule field_first_match[OF no_anchor_before[OF assms(5)] link_match_decomp[OF assms(1-4)]])

lemma empty_href_passed_over:
  "parse_item 0 block_empty_href = Inr \<lparr>index = 1, title = [], image_url = [], link = ''z''\<rparr>"
  by code_simp


end
